theory Spec2Isabelle
  imports Complex_Main "HOL-Library.Word" "HOL-Library.Multiset" "HOL-Library.Monad_Syntax"
    "HOL-Library.Log_Nat"
begin

unbundle bit_operations_syntax

section \<open>Data model of package ga\<close>

text \<open>
  The embedding follows \<^verbatim>\<open>lab1/ga/genetic_algorithm.go\<close>.

  \<^item> A \<^verbatim>\<open>[]byte\<close> is a reference to a backing array. Every gene slice of the package is
    created by \<^verbatim>\<open>make([]byte, n)\<close> and spans its whole array, so a slice is modelled by the
    address of its array in an explicit store, and \<^verbatim>\<open>len\<close> is the length of that array.
    Copying an \<^verbatim>\<open>Individual\<close> copies the address: the copies share the genes.
  \<^item> \<^verbatim>\<open>float64\<close> values (fitness, probabilities, random draws) are only compared with each
    other in the engine; they are modelled as \<open>real\<close>, which leaves NaN out.
  \<^item> \<^verbatim>\<open>BytesToFloat\<close> computes with \<^verbatim>\<open>float64\<close>. There a finite \<^verbatim>\<open>float64\<close> is the real
    number it denotes, every conversion, division, subtraction, multiplication and addition
    returns its exact result rounded by \<open>round64\<close> (IEEE 754 binary64, round to nearest, ties
    to even), and \<open>None\<close> stands for a result that is not finite (an infinity or NaN). Each
    operation is rounded on its own; Go allows an implementation to fuse the multiplication
    and the addition into one rounding, which the model does not do. The sign of zero is not
    represented.
  \<^item> The \<^verbatim>\<open>int\<close> fields of \<^verbatim>\<open>Config\<close> are only compared with loop counters and lengths and
    are modelled as \<open>int\<close>. Go's \<^verbatim>\<open>int\<close> is taken to be 64 bits wide: the arithmetic of
    \<^verbatim>\<open>BytesToInt\<close> and \<^verbatim>\<open>BytesToFloat\<close> is done on 64-bit words, read as signed.
  \<^item> The evaluator \<^verbatim>\<open>FitnessFunc\<close> is a total function of the contents of the slice.
  \<^item> A run-time panic is the result \<open>None\<close>. Memory is unbounded.
  \<^item> A \<^verbatim>\<open>for\<close> loop is a fold over its index range, or \<open>for_each\<close> when its body can panic; the
    body of a loop is a definition of its own, named after the loop.
\<close>

type_synonym byte = "8 word"

type_synonym store = "byte list list"

record Individual =
  Genes :: nat
  Fitness :: real

record Config =
  PopulationSize :: int
  MaxGenerations :: int
  CrossoverProb :: real
  MutationProb :: real
  CrossoverType :: string
  ElitismCount :: int
  BitsPerGene :: int
  FitnessFunc :: "byte list \<Rightarrow> real"
  Seed :: "64 word"

record 's GeneticAlgorithm =
  config :: Config
  population :: "Individual list"
  bestFitness :: "real list"
  rng :: 's

text \<open>
  The packages \<^verbatim>\<open>math/rand\<close> and \<^verbatim>\<open>sort\<close> belong to the Go standard library, not to the
  repository. They are a parameter of the model: a generator state \<open>'s\<close> with the three
  operations the engine calls, and the function computed by \<^verbatim>\<open>sort.Slice\<close> for a given
  \<^verbatim>\<open>less\<close>. \<open>Intn\<close> is only consulted for a positive bound (see \<open>rand_Intn\<close>).
\<close>

record 's Runtime =
  NewSource :: "64 word \<Rightarrow> 's"
  Float64 :: "'s \<Rightarrow> real \<times> 's"
  Intn :: "nat \<Rightarrow> 's \<Rightarrow> nat \<times> 's"
  SortSlice :: "(Individual \<Rightarrow> Individual \<Rightarrow> bool) \<Rightarrow> Individual list \<Rightarrow> Individual list"

text \<open>What the standard library documents about these operations.\<close>

definition Float64_in_range :: "'s Runtime \<Rightarrow> bool" where
  "Float64_in_range lib \<longleftrightarrow> (\<forall>s. 0 \<le> fst (Float64 lib s) \<and> fst (Float64 lib s) < 1)"

definition Intn_in_range :: "'s Runtime \<Rightarrow> bool" where
  "Intn_in_range lib \<longleftrightarrow> (\<forall>n s. 0 < n \<longrightarrow> fst (Intn lib n s) < n)"

definition by_fitness :: "Individual \<Rightarrow> Individual \<Rightarrow> bool" where
  "by_fitness a b \<longleftrightarrow> Fitness a > Fitness b"

definition SortSlice_sorts :: "'s Runtime \<Rightarrow> bool" where
  "SortSlice_sorts lib \<longleftrightarrow>
     (\<forall>xs. mset (SortSlice lib by_fitness xs) = mset xs \<and>
           sorted_wrt (\<lambda>a b. \<not> by_fitness b a) (SortSlice lib by_fitness xs))"

definition SortSlice_natural :: "'s Runtime \<Rightarrow> bool" where
  \<comment> \<open>\<^verbatim>\<open>sort.Slice\<close> sees the elements only through \<^verbatim>\<open>less\<close>: renaming the elements in a way
      that keeps their fitness renames the result\<close>
  "SortSlice_natural lib \<longleftrightarrow>
     (\<forall>f xs. (\<forall>x. Fitness (f x) = Fitness x) \<longrightarrow>
        SortSlice lib by_fitness (map f xs) = map f (SortSlice lib by_fitness xs))"

section \<open>Store and run-time checks\<close>

definition bytes_at :: "store \<Rightarrow> nat \<Rightarrow> byte list" where
  \<comment> \<open>the array a slice points to; an address outside the store stands for the nil slice\<close>
  "bytes_at h a = (if a < length h then h ! a else [])"

definition alloc :: "byte list \<Rightarrow> store \<Rightarrow> nat \<times> store" where
  "alloc bs h = (length h, h @ [bs])"

definition make_bytes :: "int \<Rightarrow> store \<Rightarrow> (nat \<times> store) option" where
  \<comment> \<open>\<^verbatim>\<open>make([]byte, n)\<close>: panics for a negative length, else a fresh zeroed array\<close>
  "make_bytes n h = (if n < 0 then None else Some (alloc (replicate (nat n) 0) h))"

definition index_at :: "'a list \<Rightarrow> nat \<Rightarrow> 'a option" where
  \<comment> \<open>\<^verbatim>\<open>xs[i]\<close>: panics out of range\<close>
  "index_at xs i = (if i < length xs then Some (xs ! i) else None)"

definition rand_Intn :: "'s Runtime \<Rightarrow> nat \<Rightarrow> 's \<Rightarrow> (nat \<times> 's) option" where
  \<comment> \<open>\<^verbatim>\<open>rng.Intn(n)\<close> panics if \<^verbatim>\<open>n <= 0\<close>; every argument in the package is a length\<close>
  "rand_Intn lib n s = (if n = 0 then None else Some (Intn lib n s))"

definition copy_bytes :: "byte list \<Rightarrow> byte list \<Rightarrow> byte list" where
  \<comment> \<open>\<^verbatim>\<open>copy(dst, src)\<close> on the contents: \<open>min (len dst) (len src)\<close> elements are copied\<close>
  "copy_bytes dst src =
     take (min (length dst) (length src)) src @ drop (min (length dst) (length src)) dst"

primrec for_each :: "'i list \<Rightarrow> ('i \<Rightarrow> 'a \<Rightarrow> 'a option) \<Rightarrow> 'a \<Rightarrow> 'a option" where
  \<comment> \<open>a counted loop whose body may panic\<close>
  "for_each [] body a = Some a"
| "for_each (i # is) body a = do { a' \<leftarrow> body i a; for_each is body a' }"

section \<open>\<^verbatim>\<open>float64\<close> arithmetic\<close>

text \<open>
  A finite binary64 number other than zero is \<open>k * 2 powi (e - 52)\<close> with \<open>\<bar>k\<bar> < 2 ^ 53\<close> and
  \<open>- 1022 \<le> e \<le> 1023\<close>. \<open>exponent x\<close> is the \<open>e\<close> with \<open>2 powi e \<le> \<bar>x\<bar> < 2 powi (e + 1)\<close>,
  \<open>quantum x\<close> the spacing of the binary64 numbers around \<open>x\<close> (constant below \<open>2 powi (- 1022)\<close>,
  the subnormal range), \<open>round_real\<close> rounds to the nearest multiple of the quantum, ties to the
  even multiple, and \<open>round64\<close> gives \<open>None\<close> when the rounded value is beyond the largest finite
  number (an overflow to infinity). \<open>exponent 0\<close> is 0; rounding does not use it.
\<close>

definition round_half_even :: "real \<Rightarrow> int" where
  "round_half_even x =
     (let n = \<lfloor>x\<rfloor>; r = x - of_int n
      in if r < 1 / 2 then n else if 1 / 2 < r then n + 1 else if even n then n else n + 1)"

definition exponent :: "real \<Rightarrow> int" where
  "exponent x = (if 1 \<le> \<bar>x\<bar> then bitlen \<lfloor>\<bar>x\<bar>\<rfloor> - 1 else - bitlen (\<lceil>1 / \<bar>x\<bar>\<rceil> - 1))"

definition quantum :: "real \<Rightarrow> real" where
  "quantum x = 2 powi (max (exponent x) (- 1022) - 52)"

definition round_real :: "real \<Rightarrow> real" where
  "round_real x = (if x = 0 then 0 else of_int (round_half_even (x / quantum x)) * quantum x)"

definition round64 :: "real \<Rightarrow> real option" where
  "round64 x = (let y = round_real x in if 1023 < exponent y then None else Some y)"

section \<open>Decoding utilities\<close>

definition BytesToInt :: "byte list \<Rightarrow> 64 word" where
  "BytesToInt genes =
     fold (\<lambda>i result. if genes ! i = 1 then result OR push_bit i 1 else result)
       [0..<length genes] 0"

definition BytesToFloat :: "byte list \<Rightarrow> real \<Rightarrow> real \<Rightarrow> real option" where
  "BytesToFloat genes minv maxv = do {
     let intVal = BytesToInt genes;
     let maxInt = push_bit (length genes) (1 :: 64 word) - 1;
     a \<leftarrow> round64 (real_of_int (sint intVal));  \<comment> \<open>\<^verbatim>\<open>float64(intVal)\<close>\<close>
     b \<leftarrow> round64 (real_of_int (sint maxInt));  \<comment> \<open>\<^verbatim>\<open>float64(maxInt)\<close>\<close>
     normalized \<leftarrow> (if b = 0 then None else round64 (a / b));
       \<comment> \<open>a division by zero gives an infinity or NaN\<close>
     width \<leftarrow> round64 (maxv - minv);
     scaled \<leftarrow> round64 (normalized * width);
     round64 (minv + scaled) }"

section \<open>Genetic operators\<close>

text \<open>
  The methods of \<^verbatim>\<open>*GeneticAlgorithm\<close> below take the fields of the receiver they read
  (\<^verbatim>\<open>ga.config\<close>, \<^verbatim>\<open>ga.population\<close>) as arguments and thread what they change: the
  generator state \<^verbatim>\<open>ga.rng\<close> and the store.
\<close>

definition tournament_round ::
  "'s Runtime \<Rightarrow> Individual list \<Rightarrow> nat \<Rightarrow> Individual \<times> 's \<Rightarrow> (Individual \<times> 's) option" where
  \<comment> \<open>the body of \<^verbatim>\<open>for i := 1; i < tournamentSize; i++\<close>\<close>
  "tournament_round lib pop i st =
     (case st of (best, s) \<Rightarrow> do {
        (k, s') \<leftarrow> rand_Intn lib (length pop) s;
        candidate \<leftarrow> index_at pop k;
        Some (if Fitness candidate > Fitness best then candidate else best, s')
      })"

definition tournamentSelection ::
  "'s Runtime \<Rightarrow> Individual list \<Rightarrow> 's \<Rightarrow> (Individual \<times> 's) option" where
  "tournamentSelection lib pop s =
     (let tournamentSize = 3 in do {
        (k, s') \<leftarrow> rand_Intn lib (length pop) s;
        best \<leftarrow> index_at pop k;
        for_each [1..<tournamentSize] (tournament_round lib pop) (best, s')
      })"

definition onepointCrossover ::
  "'s Runtime \<Rightarrow> Individual \<Rightarrow> Individual \<Rightarrow> store \<times> 's \<Rightarrow>
     ((Individual \<times> Individual) \<times> store \<times> 's) option" where
  \<comment> \<open>the two fresh arrays are private to the call until it returns: they are built as
      lists and stored, \<^verbatim>\<open>child1Genes\<close> first\<close>
  "onepointCrossover lib parent1 parent2 st =
     (case st of (h, s) \<Rightarrow>
        let g1 = bytes_at h (Genes parent1); g2 = bytes_at h (Genes parent2) in do {
          (point, s') \<leftarrow> rand_Intn lib (length g1) s;
          let child1Genes = replicate (length g1) 0;
              child2Genes = replicate (length g2) 0;
              c1a = copy_bytes (take point child1Genes) (take point g1)
          in
          \<comment> \<open>\<^verbatim>\<open>parent2.Genes[point:]\<close> and \<^verbatim>\<open>child2Genes[:point]\<close> panic beyond the length\<close>
          if point > length g2 then None
          else
            let c1b = copy_bytes (drop point child1Genes) (drop point g2);
                c2a = copy_bytes (take point child2Genes) (take point g2);
                c2b = copy_bytes (drop point child2Genes) (drop point g1);
                (a1, h1) = alloc (c1a @ c1b) h;
                (a2, h2) = alloc (c2a @ c2b) h1
            in Some ((\<lparr>Genes = a1, Fitness = 0\<rparr>, \<lparr>Genes = a2, Fitness = 0\<rparr>), h2, s')
        })"

definition uniform_step ::
  "'s Runtime \<Rightarrow> byte list \<Rightarrow> byte list \<Rightarrow> nat \<Rightarrow> byte list \<times> byte list \<times> 's \<Rightarrow>
     (byte list \<times> byte list \<times> 's) option" where
  \<comment> \<open>the body of \<^verbatim>\<open>for i := 0; i < len(parent1.Genes); i++\<close>, on the two fresh arrays\<close>
  "uniform_step lib g1 g2 i st =
     (case st of (child1Genes, child2Genes, s) \<Rightarrow>
        let (u, s') = Float64 lib s in
        \<comment> \<open>\<^verbatim>\<open>parent2.Genes[i]\<close> and \<^verbatim>\<open>child2Genes[i]\<close> panic out of range\<close>
        if i \<ge> length g2 then None
        else if u < 0.5 then Some (child1Genes[i := g1 ! i], child2Genes[i := g2 ! i], s')
        else Some (child1Genes[i := g2 ! i], child2Genes[i := g1 ! i], s'))"

definition uniformCrossover ::
  "'s Runtime \<Rightarrow> Individual \<Rightarrow> Individual \<Rightarrow> store \<times> 's \<Rightarrow>
     ((Individual \<times> Individual) \<times> store \<times> 's) option" where
  "uniformCrossover lib parent1 parent2 st =
     (case st of (h, s) \<Rightarrow>
        let g1 = bytes_at h (Genes parent1); g2 = bytes_at h (Genes parent2) in do {
          (child1Genes, child2Genes, s') \<leftarrow>
            for_each [0..<length g1] (uniform_step lib g1 g2)
              (replicate (length g1) 0, replicate (length g2) 0, s);
          let (a1, h1) = alloc child1Genes h;
              (a2, h2) = alloc child2Genes h1
          in Some ((\<lparr>Genes = a1, Fitness = 0\<rparr>, \<lparr>Genes = a2, Fitness = 0\<rparr>), h2, s')
        })"

definition crossover ::
  "'s Runtime \<Rightarrow> Config \<Rightarrow> Individual \<Rightarrow> Individual \<Rightarrow> store \<times> 's \<Rightarrow>
     ((Individual \<times> Individual) \<times> store \<times> 's) option" where
  "crossover lib cfg parent1 parent2 st =
     (if CrossoverType cfg = ''onepoint'' then onepointCrossover lib parent1 parent2 st
      else uniformCrossover lib parent1 parent2 st)"

definition flip_gene :: "byte \<Rightarrow> byte" where
  "flip_gene b = (if b = 0 then 1 else 0)"

definition mutate_step :: "'s Runtime \<Rightarrow> Config \<Rightarrow> nat \<Rightarrow> byte list \<times> 's \<Rightarrow> byte list \<times> 's" where
  \<comment> \<open>the body of \<^verbatim>\<open>for i := 0; i < len(individual.Genes); i++\<close>\<close>
  "mutate_step lib cfg i st =
     (case st of (genes, s) \<Rightarrow>
        let (u, s') = Float64 lib s in
        if u < MutationProb cfg then (genes[i := flip_gene (genes ! i)], s') else (genes, s'))"

definition mutate :: "'s Runtime \<Rightarrow> Config \<Rightarrow> Individual \<Rightarrow> store \<times> 's \<Rightarrow> store \<times> 's" where
  \<comment> \<open>the loop writes into the array the slice points to, so every alias sees the result\<close>
  "mutate lib cfg individual st =
     (case st of (h, s) \<Rightarrow>
        let genes = bytes_at h (Genes individual);
            (genes', s') = fold (mutate_step lib cfg) [0..<length genes] (genes, s)
        in (h[Genes individual := genes'], s'))"

section \<open>The engine\<close>

definition NewGeneticAlgorithm :: "'s Runtime \<Rightarrow> Config \<Rightarrow> 's GeneticAlgorithm" where
  "NewGeneticAlgorithm lib cfg =
     \<lparr>config = cfg, population = [], bestFitness = [], rng = NewSource lib (Seed cfg)\<rparr>"

definition init_gene_step :: "'s Runtime \<Rightarrow> nat \<Rightarrow> byte list \<times> 's \<Rightarrow> byte list \<times> 's" where
  \<comment> \<open>the body of \<^verbatim>\<open>for j := 0; j < ga.config.BitsPerGene; j++\<close>\<close>
  "init_gene_step lib j st =
     (case st of (genes, s) \<Rightarrow>
        let (u, s') = Float64 lib s in
        if u < 0.5 then (genes[j := 1], s') else (genes[j := 0], s'))"

definition init_individual ::
  "'s Runtime \<Rightarrow> Config \<Rightarrow> nat \<Rightarrow> store \<times> 's \<times> Individual list \<Rightarrow>
     (store \<times> 's \<times> Individual list) option" where
  \<comment> \<open>one turn of the outer loop of \<^verbatim>\<open>Initialize\<close>; slot \<open>i\<close> of the population is written
      in index order, before any slot is read, so the slots are collected in that order\<close>
  "init_individual lib cfg i st =
     (case st of (h, s, pop) \<Rightarrow> do {
        (a, h1) \<leftarrow> make_bytes (BitsPerGene cfg) h;
        let (genes, s') =
              fold (init_gene_step lib) [0..<nat (BitsPerGene cfg)] (bytes_at h1 a, s);
            h2 = h1[a := genes]
        in Some (h2, s', pop @ [\<lparr>Genes = a, Fitness = FitnessFunc cfg genes\<rparr>])
      })"

definition Initialize ::
  "'s Runtime \<Rightarrow> store \<times> 's GeneticAlgorithm \<Rightarrow> (store \<times> 's GeneticAlgorithm) option" where
  "Initialize lib st =
     (case st of (h, ga) \<Rightarrow>
        \<comment> \<open>\<^verbatim>\<open>make([]Individual, PopulationSize)\<close> panics for a negative size\<close>
        if PopulationSize (config ga) < 0 then None
        else do {
          (h', s', pop) \<leftarrow>
            for_each [0..<nat (PopulationSize (config ga))] (init_individual lib (config ga))
              (h, rng ga, []);
          Some (h', ga\<lparr>population := pop, rng := s'\<rparr>)
        })"

definition elites :: "Config \<Rightarrow> Individual list \<Rightarrow> Individual list" where
  \<comment> \<open>\<^verbatim>\<open>for i := 0; i < ElitismCount && i < len(population); i++\<close>\<close>
  "elites cfg pop =
     fold (\<lambda>i newPopulation. newPopulation @ [pop ! i])
       [0..<min (nat (ElitismCount cfg)) (length pop)] []"

definition reproduce_step ::
  "'s Runtime \<Rightarrow> Config \<Rightarrow> Individual list \<Rightarrow> Individual list \<times> store \<times> 's \<Rightarrow>
     (Individual list \<times> store \<times> 's) option" where
  \<comment> \<open>the body of the loop \<^verbatim>\<open>for len(newPopulation) < ga.config.PopulationSize\<close>\<close>
  "reproduce_step lib cfg pop st =
     (case st of (newPopulation, h, s) \<Rightarrow> do {
        (parent1, s1) \<leftarrow> tournamentSelection lib pop s;
        (parent2, s2) \<leftarrow> tournamentSelection lib pop s1;
        let (u, s3) = Float64 lib s2;
        ((child1, child2), st4) \<leftarrow>
          (if u < CrossoverProb cfg then crossover lib cfg parent1 parent2 (h, s3)
           else Some ((parent1, parent2), h, s3));
        let st5 = mutate lib cfg child1 st4;
            (h6, s6) = mutate lib cfg child2 st5;
            child1' = child1\<lparr>Fitness := FitnessFunc cfg (bytes_at h6 (Genes child1))\<rparr>;
            child2' = child2\<lparr>Fitness := FitnessFunc cfg (bytes_at h6 (Genes child2))\<rparr>;
            np1 = newPopulation @ [child1'];
            np2 = (if int (length np1) < PopulationSize cfg then np1 @ [child2'] else np1)
        in Some (np2, h6, s6)
      })"

function reproduce ::
  "'s Runtime \<Rightarrow> Config \<Rightarrow> Individual list \<Rightarrow> Individual list \<times> store \<times> 's \<Rightarrow>
     (Individual list \<times> store \<times> 's) option" where
  "reproduce lib cfg pop st =
     (if int (length (fst st)) < PopulationSize cfg then do {
        st' \<leftarrow> reproduce_step lib cfg pop st;
        reproduce lib cfg pop st'
      }
      else Some st)"
  by pat_completeness auto
termination
  by (relation "measure (\<lambda>(lib, cfg, pop, st). nat (PopulationSize cfg - int (length (fst st))))")
    (auto simp: reproduce_step_def Let_def split: prod.splits if_splits bind_splits)

declare reproduce.simps [simp del]

definition generation ::
  "'s Runtime \<Rightarrow> nat \<Rightarrow> store \<times> 's GeneticAlgorithm \<Rightarrow> (store \<times> 's GeneticAlgorithm) option" where
  \<comment> \<open>the body of the generation loop of \<^verbatim>\<open>Run\<close>\<close>
  "generation lib g st =
     (case st of (h, ga) \<Rightarrow>
        let pop = SortSlice lib by_fitness (population ga) in do {
          top \<leftarrow> index_at pop 0;
          let history = bestFitness ga @ [Fitness top] in
          \<comment> \<open>\<^verbatim>\<open>make([]Individual, 0, PopulationSize)\<close> panics for a negative capacity\<close>
          if PopulationSize (config ga) < 0 then None
          else do {
            (newPopulation, h', s') \<leftarrow>
              reproduce lib (config ga) pop (elites (config ga) pop, h, rng ga);
            Some (h', ga\<lparr>population := newPopulation, bestFitness := history, rng := s'\<rparr>)
          }
        })"

definition Run ::
  "'s Runtime \<Rightarrow> store \<times> 's GeneticAlgorithm \<Rightarrow>
     ((Individual \<times> real list) \<times> store \<times> 's GeneticAlgorithm) option" where
  \<comment> \<open>the values returned by \<^verbatim>\<open>Run\<close>, with the store and the receiver as it leaves them\<close>
  "Run lib st = do {
     st0 \<leftarrow> Initialize lib st;
     (h, ga) \<leftarrow> for_each [0..<nat (MaxGenerations (config (snd st)))] (generation lib) st0;
     let pop = SortSlice lib by_fitness (population ga);
     best \<leftarrow> index_at pop 0;
     Some ((best, bestFitness ga), h, ga\<lparr>population := pop\<rparr>)
   }"

definition GetBestFitnessHistory :: "'s GeneticAlgorithm \<Rightarrow> real list" where
  "GetBestFitnessHistory ga = bestFitness ga"

section \<open>Configurations and well-formed states\<close>

definition valid_config :: "Config \<Rightarrow> bool" where
  "valid_config cfg \<longleftrightarrow>
     1 \<le> PopulationSize cfg \<and> 0 \<le> MaxGenerations cfg \<and> 1 \<le> BitsPerGene cfg \<and>
     0 \<le> CrossoverProb cfg \<and> CrossoverProb cfg \<le> 1 \<and>
     0 \<le> MutationProb cfg \<and> MutationProb cfg \<le> 1"

definition genes_ok :: "store \<Rightarrow> nat \<Rightarrow> Individual \<Rightarrow> bool" where
  \<comment> \<open>the genes of an individual are an array of the store, of length \<open>L\<close>\<close>
  "genes_ok h L x \<longleftrightarrow> Genes x < length h \<and> length (h ! Genes x) = L"

definition store_le :: "store \<Rightarrow> store \<Rightarrow> bool" where
  \<comment> \<open>the store has grown, and no array has changed its length\<close>
  "store_le h h' \<longleftrightarrow> length h \<le> length h' \<and> (\<forall>a<length h. length (h' ! a) = length (h ! a))"

definition evaluated :: "Config \<Rightarrow> store \<Rightarrow> Individual \<Rightarrow> bool" where
  \<comment> \<open>the fitness field is the evaluator's value on the genes as they are in the store\<close>
  "evaluated cfg h x \<longleftrightarrow> Genes x < length h \<and> Fitness x = FitnessFunc cfg (bytes_at h (Genes x))"

definition engine_ok :: "Config \<Rightarrow> store \<times> 's GeneticAlgorithm \<Rightarrow> bool" where
  \<comment> \<open>the state between two generations: a full population of arrays of the run's length\<close>
  "engine_ok cfg st \<longleftrightarrow>
     config (snd st) = cfg \<and> int (length (population (snd st))) = PopulationSize cfg \<and>
     (\<forall>x\<in>set (population (snd st)). genes_ok (fst st) (nat (BitsPerGene cfg)) x)"

definition history_ok :: "Config \<Rightarrow> 's GeneticAlgorithm \<Rightarrow> bool" where
  \<comment> \<open>with elitism, the history is ascending and every entry is matched in the population\<close>
  "history_ok cfg ga \<longleftrightarrow>
     (1 \<le> ElitismCount cfg \<longrightarrow>
        sorted (bestFitness ga) \<and>
        (\<forall>v\<in>set (bestFitness ga). \<exists>x\<in>set (population ga). v \<le> Fitness x))"

section \<open>Observing a run\<close>

text \<open>
  What a caller can observe of a run: the genes and fitness of the individual returned, the
  history, the genes and fitness of the final population in order, and the state of the
  generator. Addresses of arrays are not observable.
\<close>

definition genotype :: "store \<Rightarrow> Individual \<Rightarrow> byte list \<times> real" where
  "genotype h x = (bytes_at h (Genes x), Fitness x)"

definition outcome ::
  "((Individual \<times> real list) \<times> store \<times> 's GeneticAlgorithm) option \<Rightarrow>
     ((byte list \<times> real) \<times> real list \<times> (byte list \<times> real) list \<times> 's) option" where
  "outcome r =
     map_option (\<lambda>((best, history), h, ga).
        (genotype h best, history, map (genotype h) (population ga), rng ga)) r"

text \<open>
  Two runs that start on stores of different sizes allocate the same arrays at different
  addresses: the arrays from \<open>n1\<close> on in one store are those from \<open>n2\<close> on in the other.
\<close>

definition reloc :: "nat \<Rightarrow> nat \<Rightarrow> Individual \<Rightarrow> Individual" where
  "reloc n1 n2 x = x\<lparr>Genes := Genes x - n1 + n2\<rparr>"

definition same_arrays :: "nat \<Rightarrow> nat \<Rightarrow> store \<Rightarrow> store \<Rightarrow> bool" where
  "same_arrays n1 n2 h1 h2 \<longleftrightarrow> n1 \<le> length h1 \<and> n2 \<le> length h2 \<and> drop n1 h1 = drop n2 h2"

definition in_run :: "nat \<Rightarrow> store \<Rightarrow> Individual \<Rightarrow> bool" where
  "in_run n h x \<longleftrightarrow> n \<le> Genes x \<and> Genes x < length h"

definition relocated ::
  "nat \<Rightarrow> nat \<Rightarrow> store \<times> 's GeneticAlgorithm \<Rightarrow> store \<times> 's GeneticAlgorithm \<Rightarrow> bool" where
  "relocated n1 n2 st1 st2 \<longleftrightarrow>
     same_arrays n1 n2 (fst st1) (fst st2) \<and>
     snd st2 = (snd st1)\<lparr>population := map (reloc n1 n2) (population (snd st1))\<rparr> \<and>
     (\<forall>x\<in>set (population (snd st1)). in_run n1 (fst st1) x)"

section \<open>A concrete runtime and configuration\<close>

text \<open>
  An instance of the runtime on which the engine can be evaluated: a counter as generator
  state and insertion sort for \<^verbatim>\<open>sort.Slice\<close>.
\<close>

primrec insert_sorted :: "('a \<Rightarrow> 'a \<Rightarrow> bool) \<Rightarrow> 'a \<Rightarrow> 'a list \<Rightarrow> 'a list" where
  "insert_sorted lt x [] = [x]"
| "insert_sorted lt x (y # ys) = (if lt x y then x # y # ys else y # insert_sorted lt x ys)"

definition insertion_sort :: "('a \<Rightarrow> 'a \<Rightarrow> bool) \<Rightarrow> 'a list \<Rightarrow> 'a list" where
  "insertion_sort lt xs = foldr (insert_sorted lt) xs []"

definition counter_lib :: "nat Runtime" where
  "counter_lib =
     \<lparr>NewSource = unat,
      Float64 = (\<lambda>s. (if even s then 1 / 4 else 3 / 4, Suc s)),
      Intn = (\<lambda>n s. (s mod n, Suc s)),
      SortSlice = insertion_sort\<rparr>"

definition count_ones :: "byte list \<Rightarrow> real" where
  "count_ones genes = real (length (filter (\<lambda>b. b = 1) genes))"

definition small_config :: Config where
  "small_config =
     \<lparr>PopulationSize = 3, MaxGenerations = 2, CrossoverProb = 0.8, MutationProb = 0.05,
      CrossoverType = ''onepoint'', ElitismCount = 1, BitsPerGene = 2,
      FitnessFunc = count_ones, Seed = 1\<rparr>"

text \<open>
  A second instance with the sort that \<^verbatim>\<open>sort.Slice\<close> runs on slices of at most twelve
  elements: insertion sort that keeps equal elements in their order.
\<close>

primrec insert_stable :: "('a \<Rightarrow> 'a \<Rightarrow> bool) \<Rightarrow> 'a \<Rightarrow> 'a list \<Rightarrow> 'a list" where
  "insert_stable lt x [] = [x]"
| "insert_stable lt x (y # ys) = (if lt y x then y # insert_stable lt x ys else x # y # ys)"

definition stable_sort :: "('a \<Rightarrow> 'a \<Rightarrow> bool) \<Rightarrow> 'a list \<Rightarrow> 'a list" where
  "stable_sort lt xs = foldr (insert_stable lt) xs []"

definition stable_lib :: "nat Runtime" where
  "stable_lib =
     \<lparr>NewSource = unat,
      Float64 = (\<lambda>s. (if even s then 1 / 4 else 3 / 4, Suc s)),
      Intn = (\<lambda>n s. (s mod n, Suc s)),
      SortSlice = stable_sort\<rparr>"

definition stale_config :: Config where
  "stale_config =
     \<lparr>PopulationSize = 2, MaxGenerations = 2, CrossoverProb = 0.5, MutationProb = 0.5,
      CrossoverType = ''onepoint'', ElitismCount = 1, BitsPerGene = 1,
      FitnessFunc = count_ones, Seed = 1\<rparr>"

definition demo_store :: store where
  "demo_store = [[1, 0, 1], [0, 1, 1]]"

definition demo_parent1 :: Individual where
  "demo_parent1 = \<lparr>Genes = 0, Fitness = 2\<rparr>"

definition demo_parent2 :: Individual where
  "demo_parent2 = \<lparr>Genes = 1, Fitness = 2\<rparr>"

section \<open>The concrete runtime meets the library's contract\<close>

lemma mset_insert_sorted: "mset (insert_sorted lt x ys) = add_mset x (mset ys)"
  by (induction ys) simp_all

lemma set_insert_sorted: "set (insert_sorted lt x ys) = insert x (set ys)"
  by (induction ys) auto

lemma sorted_insert_sorted:
  "sorted_wrt (\<lambda>a b. \<not> by_fitness b a) ys \<Longrightarrow>
   sorted_wrt (\<lambda>a b. \<not> by_fitness b a) (insert_sorted by_fitness x ys)"
  by (induction ys) (auto simp: set_insert_sorted by_fitness_def)

lemma counter_lib_sorts: "SortSlice_sorts counter_lib"
proof -
  have "mset (insertion_sort by_fitness xs) = mset xs" for xs
    unfolding insertion_sort_def by (induction xs) (simp_all add: mset_insert_sorted)
  moreover have "sorted_wrt (\<lambda>a b. \<not> by_fitness b a) (insertion_sort by_fitness xs)" for xs
    unfolding insertion_sort_def by (induction xs) (simp_all add: sorted_insert_sorted)
  ultimately show ?thesis
    by (simp add: SortSlice_sorts_def counter_lib_def)
qed

lemma counter_lib_Float64: "Float64_in_range counter_lib"
  by (simp add: Float64_in_range_def counter_lib_def)

lemma counter_lib_Intn: "Intn_in_range counter_lib"
  by (simp add: Intn_in_range_def counter_lib_def)

lemma mset_insert_stable: "mset (insert_stable lt x ys) = add_mset x (mset ys)"
  by (induction ys) simp_all

lemma set_insert_stable: "set (insert_stable lt x ys) = insert x (set ys)"
  by (induction ys) auto

lemma sorted_insert_stable:
  "sorted_wrt (\<lambda>a b. \<not> by_fitness b a) ys \<Longrightarrow>
   sorted_wrt (\<lambda>a b. \<not> by_fitness b a) (insert_stable by_fitness x ys)"
  by (induction ys) (auto simp: set_insert_stable by_fitness_def)

lemma stable_lib_sorts: "SortSlice_sorts stable_lib"
proof -
  have "mset (stable_sort by_fitness xs) = mset xs" for xs
    unfolding stable_sort_def by (induction xs) (simp_all add: mset_insert_stable)
  moreover have "sorted_wrt (\<lambda>a b. \<not> by_fitness b a) (stable_sort by_fitness xs)" for xs
    unfolding stable_sort_def by (induction xs) (simp_all add: sorted_insert_stable)
  ultimately show ?thesis
    by (simp add: SortSlice_sorts_def stable_lib_def)
qed

lemma stable_lib_Float64: "Float64_in_range stable_lib"
  by (simp add: Float64_in_range_def stable_lib_def)

lemma stable_lib_Intn: "Intn_in_range stable_lib"
  by (simp add: Intn_in_range_def stable_lib_def)

section \<open>Counted loops\<close>

lemma for_each_append:
  "for_each (xs @ ys) body a = (case for_each xs body a of None \<Rightarrow> None | Some a' \<Rightarrow> for_each ys body a')"
  by (induction xs arbitrary: a) (auto split: bind_splits)

section \<open>Mutation\<close>

lemma Float64_bounds:
  "Float64_in_range lib \<Longrightarrow> Float64 lib s = (u, s') \<Longrightarrow> 0 \<le> u \<and> u < 1"
  unfolding Float64_in_range_def by (metis fst_conv)

lemma mutate_step_zero:
  "Float64_in_range lib \<Longrightarrow> MutationProb cfg = 0 \<Longrightarrow> fst (mutate_step lib cfg i (g, s)) = g"
  by (auto simp: mutate_step_def split: prod.splits dest: Float64_bounds)

lemma mutate_step_one:
  "Float64_in_range lib \<Longrightarrow> MutationProb cfg = 1 \<Longrightarrow>
   fst (mutate_step lib cfg i (g, s)) = g[i := flip_gene (g ! i)]"
  by (auto simp: mutate_step_def split: prod.splits dest: Float64_bounds)

lemma mutate_fold_zero:
  assumes "Float64_in_range lib" "MutationProb cfg = 0"
  shows "fst (fold (mutate_step lib cfg) is (g, s)) = g"
proof (induction "is" arbitrary: s)
  case Nil
  then show ?case by simp
next
  case (Cons i "is")
  obtain g' s' where st: "mutate_step lib cfg i (g, s) = (g', s')"
    by (cases "mutate_step lib cfg i (g, s)")
  with mutate_step_zero [OF assms, of i g s] have "g' = g" by simp
  with st Cons show ?case by simp
qed

lemma mutate_fold_one:
  assumes "Float64_in_range lib" "MutationProb cfg = 1" "k \<le> length g"
  shows "fst (fold (mutate_step lib cfg) [0..<k] (g, s)) = map flip_gene (take k g) @ drop k g"
  using assms(3)
proof (induction k)
  case 0
  then show ?case by simp
next
  case (Suc k)
  obtain g' s' where st: "fold (mutate_step lib cfg) [0..<k] (g, s) = (g', s')"
    by (cases "fold (mutate_step lib cfg) [0..<k] (g, s)")
  have g': "g' = map flip_gene (take k g) @ drop k g" using Suc st by simp
  have "fst (mutate_step lib cfg k (g', s')) = g'[k := flip_gene (g' ! k)]"
    using assms(1,2) by (rule mutate_step_one)
  moreover have "g'[k := flip_gene (g' ! k)] = map flip_gene (take (Suc k) g) @ drop (Suc k) g"
    using Suc.prems unfolding g'
    by (simp add: take_Suc_conv_app_nth list_update_append nth_append Cons_nth_drop_Suc [symmetric]
         del: Cons_nth_drop_Suc)
  ultimately show ?case using st by simp
qed

text \<open>
  Claim C8. For every genotype and every sequence of random draws (each in \<open>[0, 1)\<close>, as
  \<^verbatim>\<open>Float64\<close> promises), mutation with \<open>MutationProb = 0\<close> leaves the store, and with it the
  genotype, unchanged, and mutation with \<open>MutationProb = 1\<close> replaces the genotype by its
  bitwise flip, where a flip sends 0 to 1 and 1 to 0.
\<close>

theorem mutate_extremes:
  assumes "Float64_in_range lib"
  shows "(MutationProb cfg = 0 \<longrightarrow> fst (mutate lib cfg ind (h, s)) = h) \<and>
         (MutationProb cfg = 1 \<longrightarrow>
            fst (mutate lib cfg ind (h, s)) =
              h[Genes ind := map flip_gene (bytes_at h (Genes ind))]) \<and>
         flip_gene 0 = 1 \<and> flip_gene 1 = 0"
proof (intro conjI impI)
  assume p: "MutationProb cfg = 0"
  let ?g = "bytes_at h (Genes ind)"
  have "fst (fold (mutate_step lib cfg) [0..<length ?g] (?g, s)) = ?g"
    using assms p by (rule mutate_fold_zero)
  moreover have "h[Genes ind := ?g] = h"
    by (simp add: bytes_at_def list_update_beyond)
  ultimately show "fst (mutate lib cfg ind (h, s)) = h"
    by (simp add: mutate_def Let_def split_beta)
next
  assume p: "MutationProb cfg = 1"
  let ?g = "bytes_at h (Genes ind)"
  have "fst (fold (mutate_step lib cfg) [0..<length ?g] (?g, s)) = map flip_gene ?g"
    using mutate_fold_one [OF assms p order_refl, of ?g s] by simp
  then show "fst (mutate lib cfg ind (h, s)) = h[Genes ind := map flip_gene ?g]"
    by (simp add: mutate_def Let_def split_beta)
qed (simp_all add: flip_gene_def)

theorem mutate_extremes_witness:
  "Float64_in_range counter_lib \<and>
   fst (mutate counter_lib (small_config\<lparr>MutationProb := 0\<rparr>) demo_parent2 (demo_store, 0))
     = [[1, 0, 1], [0, 1, 1]] \<and>
   fst (mutate counter_lib (small_config\<lparr>MutationProb := 1\<rparr>) demo_parent2 (demo_store, 0))
     = [[1, 0, 1], [1, 0, 0]]"
  using mutate_extremes [OF counter_lib_Float64,
      of "small_config\<lparr>MutationProb := 0\<rparr>" demo_parent2 demo_store 0]
    mutate_extremes [OF counter_lib_Float64,
      of "small_config\<lparr>MutationProb := 1\<rparr>" demo_parent2 demo_store 0]
  by (simp add: counter_lib_Float64 small_config_def demo_parent2_def demo_store_def
        bytes_at_def flip_gene_def)

section \<open>Crossover\<close>

lemma uniform_loop:
  assumes "k \<le> length g2" "length c1 = n" "length c2 = n" "k \<le> n"
  shows "\<exists>c1' c2' s'. for_each [0..<k] (uniform_step lib g1 g2) (c1, c2, s) = Some (c1', c2', s') \<and>
           length c1' = n \<and> length c2' = n \<and>
           (\<forall>i<k. (c1' ! i = g1 ! i \<and> c2' ! i = g2 ! i) \<or> (c1' ! i = g2 ! i \<and> c2' ! i = g1 ! i))"
  using assms(1,4)
proof (induction k)
  case 0
  then show ?case using assms(2,3) by simp
next
  case (Suc k)
  then obtain c1' c2' s' where
    run: "for_each [0..<k] (uniform_step lib g1 g2) (c1, c2, s) = Some (c1', c2', s')" and
    len: "length c1' = n" "length c2' = n" and
    inv: "\<forall>i<k. (c1' ! i = g1 ! i \<and> c2' ! i = g2 ! i) \<or> (c1' ! i = g2 ! i \<and> c2' ! i = g1 ! i)"
    by auto
  obtain u s'' where draw: "Float64 lib s' = (u, s'')"
    by (cases "Float64 lib s'")
  let ?d1 = "if u < 0.5 then c1'[k := g1 ! k] else c1'[k := g2 ! k]"
  let ?d2 = "if u < 0.5 then c2'[k := g2 ! k] else c2'[k := g1 ! k]"
  have step: "uniform_step lib g1 g2 k (c1', c2', s') = Some (?d1, ?d2, s'')"
    using Suc.prems draw by (simp add: uniform_step_def)
  have "for_each [0..<Suc k] (uniform_step lib g1 g2) (c1, c2, s) = Some (?d1, ?d2, s'')"
    using run step by (simp add: for_each_append)
  moreover have "length ?d1 = n" "length ?d2 = n"
    using len by simp_all
  moreover have "\<forall>i<Suc k. (?d1 ! i = g1 ! i \<and> ?d2 ! i = g2 ! i) \<or> (?d1 ! i = g2 ! i \<and> ?d2 ! i = g1 ! i)"
    using inv len Suc.prems by (auto simp: less_Suc_eq nth_list_update)
  ultimately show ?case by blast
qed

lemma bytes_at_alloc_old: "a < length h \<Longrightarrow> bytes_at (h @ xs) a = bytes_at h a"
  by (simp add: bytes_at_def nth_append)

lemma bytes_at_alloc_new: "bytes_at (h @ [x]) (length h) = x"
  by (simp add: bytes_at_def)

lemma bytes_at_alloc_new2: "bytes_at (h @ [x, y]) (length h) = x" "bytes_at (h @ [x, y]) (Suc (length h)) = y"
  by (simp_all add: bytes_at_def nth_append)

text \<open>
  Claim C7. For parents of equal gene length and every sequence of coin draws, uniform
  crossover returns two children of that length such that at every position either child 1
  carries the bit of parent 1 and child 2 the bit of parent 2, or the other way round.
\<close>

theorem uniformCrossover_complementary:
  assumes "length (bytes_at h (Genes parent1)) = length (bytes_at h (Genes parent2))"
  shows "\<exists>child1 child2 h' s'.
           uniformCrossover lib parent1 parent2 (h, s) = Some ((child1, child2), h', s') \<and>
           length (bytes_at h' (Genes child1)) = length (bytes_at h (Genes parent1)) \<and>
           length (bytes_at h' (Genes child2)) = length (bytes_at h (Genes parent1)) \<and>
           (\<forall>i < length (bytes_at h (Genes parent1)).
              (bytes_at h' (Genes child1) ! i = bytes_at h (Genes parent1) ! i \<and>
               bytes_at h' (Genes child2) ! i = bytes_at h (Genes parent2) ! i) \<or>
              (bytes_at h' (Genes child1) ! i = bytes_at h (Genes parent2) ! i \<and>
               bytes_at h' (Genes child2) ! i = bytes_at h (Genes parent1) ! i))"
proof -
  let ?g1 = "bytes_at h (Genes parent1)" and ?g2 = "bytes_at h (Genes parent2)"
  let ?n = "length ?g1"
  obtain c1 c2 s' where
    run: "for_each [0..<?n] (uniform_step lib ?g1 ?g2) (replicate ?n 0, replicate (length ?g2) 0, s)
            = Some (c1, c2, s')" and
    len: "length c1 = ?n" "length c2 = ?n" and
    inv: "\<forall>i<?n. (c1 ! i = ?g1 ! i \<and> c2 ! i = ?g2 ! i) \<or> (c1 ! i = ?g2 ! i \<and> c2 ! i = ?g1 ! i)"
    using uniform_loop [of ?n ?g2 "replicate ?n 0" ?n "replicate (length ?g2) 0" lib ?g1 s] assms
    by auto
  have res: "uniformCrossover lib parent1 parent2 (h, s) =
          Some ((\<lparr>Genes = length h, Fitness = 0\<rparr>, \<lparr>Genes = Suc (length h), Fitness = 0\<rparr>),
                h @ [c1, c2], s')"
    using run by (simp add: uniformCrossover_def alloc_def Let_def)
  show ?thesis
    unfolding res using len inv by (simp add: bytes_at_alloc_new2)
qed

theorem uniformCrossover_complementary_witness:
  "length (bytes_at demo_store (Genes demo_parent1)) = length (bytes_at demo_store (Genes demo_parent2)) \<and>
   (\<exists>child1 child2 h' s'.
      uniformCrossover counter_lib demo_parent1 demo_parent2 (demo_store, 0)
        = Some ((child1, child2), h', s') \<and>
      length (bytes_at h' (Genes child1)) = 3 \<and> length (bytes_at h' (Genes child2)) = 3 \<and>
      (\<forall>i < 3.
         (bytes_at h' (Genes child1) ! i = [1, 0, 1] ! i \<and>
          bytes_at h' (Genes child2) ! i = [0, 1, 1] ! i) \<or>
         (bytes_at h' (Genes child1) ! i = [0, 1, 1] ! i \<and>
          bytes_at h' (Genes child2) ! i = [1, 0, 1] ! i)))"
proof -
  have eq: "length (bytes_at demo_store (Genes demo_parent1))
      = length (bytes_at demo_store (Genes demo_parent2))"
    by (simp add: demo_store_def demo_parent1_def demo_parent2_def bytes_at_def)
  have g1: "bytes_at demo_store (Genes demo_parent1) = [1, 0, 1]"
    and g2: "bytes_at demo_store (Genes demo_parent2) = [0, 1, 1]"
    by (simp_all add: demo_store_def demo_parent1_def demo_parent2_def bytes_at_def)
  have l: "length [1, 0, 1 :: byte] = 3"
    by simp
  show ?thesis
  proof (rule conjI)
    show "length (bytes_at demo_store (Genes demo_parent1))
        = length (bytes_at demo_store (Genes demo_parent2))"
      by (rule eq)
    show "\<exists>child1 child2 h' s'.
      uniformCrossover counter_lib demo_parent1 demo_parent2 (demo_store, 0)
        = Some ((child1, child2), h', s') \<and>
      length (bytes_at h' (Genes child1)) = 3 \<and> length (bytes_at h' (Genes child2)) = 3 \<and>
      (\<forall>i < 3.
         (bytes_at h' (Genes child1) ! i = [1, 0, 1] ! i \<and>
          bytes_at h' (Genes child2) ! i = [0, 1, 1] ! i) \<or>
         (bytes_at h' (Genes child1) ! i = [0, 1, 1] ! i \<and>
          bytes_at h' (Genes child2) ! i = [1, 0, 1] ! i))"
      using uniformCrossover_complementary [OF eq, of counter_lib 0]
      unfolding g1 g2 l .
  qed
qed

lemma copy_bytes_same: "length dst = length src \<Longrightarrow> copy_bytes dst src = src"
  by (simp add: copy_bytes_def)

text \<open>
  Claim C6. For parents of equal gene length \<open>L \<ge> 1\<close>, one-point crossover draws the cut
  index \<open>c\<close> with \<^verbatim>\<open>Intn(L)\<close>, so \<open>c < L\<close>, and returns child 1 with the genes of parent 1
  before the cut and those of parent 2 from the cut onward, and child 2 as the mirror image;
  both children have gene length \<open>L\<close> and their fitness field holds the zero value of a
  fresh struct. (That the draw is uniform is a property of the library's generator.)
\<close>

theorem onepointCrossover_cut:
  assumes "Intn_in_range lib"
    and "length (bytes_at h (Genes parent1)) = L"
    and "length (bytes_at h (Genes parent2)) = L"
    and "1 \<le> L"
  shows "\<exists>child1 child2 h' s'.
           onepointCrossover lib parent1 parent2 (h, s) = Some ((child1, child2), h', s') \<and>
           (let c = fst (Intn lib L s) in
              c < L \<and>
              take c (bytes_at h' (Genes child1)) = take c (bytes_at h (Genes parent1)) \<and>
              drop c (bytes_at h' (Genes child1)) = drop c (bytes_at h (Genes parent2)) \<and>
              take c (bytes_at h' (Genes child2)) = take c (bytes_at h (Genes parent2)) \<and>
              drop c (bytes_at h' (Genes child2)) = drop c (bytes_at h (Genes parent1))) \<and>
           length (bytes_at h' (Genes child1)) = L \<and>
           length (bytes_at h' (Genes child2)) = L \<and>
           Fitness child1 = 0 \<and> Fitness child2 = 0"
proof -
  let ?g1 = "bytes_at h (Genes parent1)" and ?g2 = "bytes_at h (Genes parent2)"
  obtain c s' where draw: "Intn lib L s = (c, s')"
    by (cases "Intn lib L s")
  have c: "c < L"
    using assms(1,4) draw unfolding Intn_in_range_def by (metis fst_conv less_eq_Suc_le One_nat_def)
  have res: "onepointCrossover lib parent1 parent2 (h, s) =
          Some ((\<lparr>Genes = length h, Fitness = 0\<rparr>, \<lparr>Genes = Suc (length h), Fitness = 0\<rparr>),
                h @ [take c ?g1 @ drop c ?g2, take c ?g2 @ drop c ?g1], s')"
    using assms(2,3,4) draw c
    by (auto simp add: onepointCrossover_def rand_Intn_def alloc_def Let_def copy_bytes_same)
  show ?thesis
    unfolding res using assms(2,3) c draw by (simp add: bytes_at_alloc_new2 Let_def)
qed

theorem onepointCrossover_cut_witness:
  "Intn_in_range counter_lib \<and>
   length (bytes_at demo_store (Genes demo_parent1)) = 3 \<and>
   length (bytes_at demo_store (Genes demo_parent2)) = 3 \<and>
   (\<exists>child1 child2 h' s'.
      onepointCrossover counter_lib demo_parent1 demo_parent2 (demo_store, 2)
        = Some ((child1, child2), h', s') \<and>
      bytes_at h' (Genes child1) = [1, 0, 1] \<and>
      bytes_at h' (Genes child2) = [0, 1, 1] \<and>
      Fitness child1 = 0 \<and> Fitness child2 = 0)"
proof -
  have g1: "bytes_at demo_store (Genes demo_parent1) = [1, 0, 1]"
    and g2: "bytes_at demo_store (Genes demo_parent2) = [0, 1, 1]"
    by (simp_all add: demo_store_def demo_parent1_def demo_parent2_def bytes_at_def)
  have c: "fst (Intn counter_lib 3 2) = 2"
    by (simp add: counter_lib_def)
  obtain child1 child2 h' s' where
    run: "onepointCrossover counter_lib demo_parent1 demo_parent2 (demo_store, 2)
            = Some ((child1, child2), h', s')" and
    parts: "take 2 (bytes_at h' (Genes child1)) = take 2 [1, 0, 1]"
      "drop 2 (bytes_at h' (Genes child1)) = drop 2 [0, 1, 1]"
      "take 2 (bytes_at h' (Genes child2)) = take 2 [0, 1, 1]"
      "drop 2 (bytes_at h' (Genes child2)) = drop 2 [1, 0, 1]" and
    fit: "Fitness child1 = 0" "Fitness child2 = 0"
    using onepointCrossover_cut [OF counter_lib_Intn, of demo_store demo_parent1 3 demo_parent2 2]
    unfolding g1 g2 Let_def c by auto
  have "bytes_at h' (Genes child1) = take 2 [1, 0, 1] @ drop 2 [0, 1, 1]"
    using parts(1,2) by (metis append_take_drop_id)
  moreover have "bytes_at h' (Genes child2) = take 2 [0, 1, 1] @ drop 2 [1, 0, 1]"
    using parts(3,4) by (metis append_take_drop_id)
  ultimately show ?thesis
    using run fit counter_lib_Intn g1 g2 by simp
qed

section \<open>Decoding\<close>

lemma bit_BytesToInt_fold:
  "n \<le> length genes \<Longrightarrow>
   bit (fold (\<lambda>i result. if genes ! i = 1 then result OR push_bit i 1 else result) [0..<n] (0 :: 64 word)) k
     \<longleftrightarrow> k < n \<and> k < 64 \<and> genes ! k = 1"
proof (induction n)
  case 0
  then show ?case by simp
next
  case (Suc n)
  then show ?case
    by (auto simp: bit_or_iff bit_exp_iff less_Suc_eq)
qed

lemma bit_BytesToInt:
  "bit (BytesToInt genes) k \<longleftrightarrow> k < length genes \<and> k < 64 \<and> genes ! k = 1"
  unfolding BytesToInt_def by (rule bit_BytesToInt_fold) simp

lemma BytesToInt_zeros: "BytesToInt (replicate L 0) = 0"
  by (rule bit_eqI) (simp add: bit_BytesToInt)

lemma BytesToInt_ones: "BytesToInt (replicate L 1) = push_bit L 1 - 1"
proof -
  have "BytesToInt (replicate L 1) = (mask L :: 64 word)"
    by (rule bit_eqI) (auto simp: bit_BytesToInt bit_mask_iff)
  then show ?thesis by (simp add: mask_eq_exp_minus_1 push_bit_eq_mult)
qed

lemma maxInt_mask: "(2 ^ L - 1 :: 64 word) = mask L"
  by (simp add: mask_eq_exp_minus_1)

lemma sint_maxInt:
  assumes "L \<le> 63"
  shows "sint (2 ^ L - 1 :: 64 word) = 2 ^ L - 1"
proof -
  have le: "(2::int) ^ L \<le> 2 ^ 63"
    using assms by (intro power_increasing) simp_all
  have pos: "0 < (2::int) ^ L" by simp
  have neg: "- (2 ^ 63) \<le> (0::int)" by simp
  have lo: "- (2 ^ 63) \<le> (2::int) ^ L - 1"
    using pos neg by linarith
  have hi: "(2::int) ^ L - 1 < 2 ^ 63"
    using le by linarith
  have "signed_take_bit 63 ((2::int) ^ L - 1) = 2 ^ L - 1"
    using lo hi by (rule signed_take_bit_int_eq_self)
  moreover have "uint (mask L :: 64 word) = mask L"
    using assms by (simp add: uint_mask_eq min_def)
  then have "sint (mask L :: 64 word) = signed_take_bit 63 ((2::int) ^ L - 1)"
    by (simp add: sint_uint mask_eq_exp_minus_1)
  ultimately show ?thesis by (simp only: maxInt_mask)
qed

lemma sint_maxInt_wide:
  assumes "64 \<le> L"
  shows "sint (2 ^ L - 1 :: 64 word) = - 1"
proof -
  have z: "(2 ^ L :: 64 word) = 0"
    using assms by (intro bit_eqI) (simp add: bit_exp_iff)
  show ?thesis unfolding z by simp
qed

lemma BytesToInt_range:
  assumes "length genes \<le> 63"
  shows "0 \<le> sint (BytesToInt genes)" and "sint (BytesToInt genes) \<le> 2 ^ length genes - 1"
proof -
  define L where "L = length genes"
  have L: "L \<le> 63" using assms by (simp add: L_def)
  have t: "take_bit L (BytesToInt genes) = BytesToInt genes"
    by (rule bit_eqI) (auto simp: bit_take_bit_iff bit_BytesToInt L_def)
  have "uint (take_bit L (BytesToInt genes)) = take_bit L (uint (BytesToInt genes))"
    by (rule unsigned_take_bit_eq)
  then have "uint (BytesToInt genes) = take_bit L (uint (BytesToInt genes))"
    by (simp only: t)
  moreover have "take_bit L (uint (BytesToInt genes)) < 2 ^ L"
    by (rule take_bit_int_less_exp)
  ultimately have u: "uint (BytesToInt genes) \<le> 2 ^ L - 1"
    by linarith
  have le: "(2::int) ^ L \<le> 2 ^ 63"
    using L by (intro power_increasing) simp_all
  have u0: "0 \<le> uint (BytesToInt genes)" by simp
  have neg: "- (2 ^ 63) \<le> (0::int)" by simp
  have lo: "- (2 ^ 63) \<le> uint (BytesToInt genes)"
    using u0 neg by linarith
  have hi: "uint (BytesToInt genes) < 2 ^ 63"
    using u le by linarith
  have "signed_take_bit 63 (uint (BytesToInt genes)) = uint (BytesToInt genes)"
    using lo hi by (rule signed_take_bit_int_eq_self)
  then have s: "sint (BytesToInt genes) = uint (BytesToInt genes)"
    by (simp add: sint_uint)
  show "0 \<le> sint (BytesToInt genes)"
    unfolding s by simp
  show "sint (BytesToInt genes) \<le> 2 ^ length genes - 1"
    unfolding s using u by (simp only: L_def)
qed

section \<open>Rounding\<close>

subsection \<open>Rounding to an integer\<close>

lemma round_half_even_of_int: "round_half_even (of_int k) = k"
  by (simp add: round_half_even_def)

lemma round_half_even_range:
  "\<lfloor>x\<rfloor> \<le> round_half_even x \<and> round_half_even x \<le> \<lfloor>x\<rfloor> + 1"
  by (simp add: round_half_even_def Let_def)

lemma round_half_even_mono:
  assumes "a \<le> b"
  shows "round_half_even a \<le> round_half_even b"
proof (cases "\<lfloor>a\<rfloor> = \<lfloor>b\<rfloor>")
  case True
  then show ?thesis
    using assms by (auto simp: round_half_even_def Let_def)
next
  case False
  then have "\<lfloor>a\<rfloor> < \<lfloor>b\<rfloor>"
    using floor_mono [OF assms] by simp
  then show ?thesis
    using round_half_even_range [of a] round_half_even_range [of b] by linarith
qed

lemma round_half_even_minus: "round_half_even (- a) = - round_half_even a"
proof (cases "a = of_int \<lfloor>a\<rfloor>")
  case True
  then obtain k where k: "a = of_int k" ..
  have "round_half_even (of_int (- k)) = - k"
    by (rule round_half_even_of_int)
  then show ?thesis
    unfolding k by (simp add: round_half_even_of_int)
next
  case False
  then have c: "\<lceil>a\<rceil> = \<lfloor>a\<rfloor> + 1"
    by (simp add: ceiling_altdef)
  have f: "\<lfloor>- a\<rfloor> = - \<lfloor>a\<rfloor> - 1"
    using c by (simp add: ceiling_def)
  show ?thesis
    unfolding round_half_even_def Let_def f by auto
qed

subsection \<open>The exponent of a real number\<close>

lemma exponent_bounds:
  assumes "x \<noteq> 0"
  shows "2 powi exponent x \<le> \<bar>x\<bar>" and "\<bar>x\<bar> < 2 powi (exponent x + 1)"
proof -
  have "2 powi exponent x \<le> \<bar>x\<bar> \<and> \<bar>x\<bar> < 2 powi (exponent x + 1)"
  proof (cases "1 \<le> \<bar>x\<bar>")
    case True
    define n where "n = \<lfloor>\<bar>x\<bar>\<rfloor>"
    have n1: "1 \<le> n"
      using True by (simp add: n_def)
    then have b: "2 ^ nat (bitlen n - 1) \<le> n" "n < 2 ^ nat (bitlen n)"
      using bitlen_bounds [of n] by simp_all
    have k1: "1 \<le> bitlen n"
    proof (rule ccontr)
      assume "\<not> 1 \<le> bitlen n"
      then have "nat (bitlen n) = 0" by simp
      then show False using b(2) n1 by simp
    qed
    have e: "exponent x = bitlen n - 1"
      using True by (simp add: exponent_def n_def)
    have p1: "(2::real) powi (bitlen n - 1) = 2 ^ nat (bitlen n - 1)"
      using k1 by (simp add: power_int_nonneg_exp)
    have p2: "(2::real) powi (bitlen n - 1 + 1) = 2 ^ nat (bitlen n)"
      using k1 by (simp add: power_int_nonneg_exp)
    have "(2::real) ^ nat (bitlen n - 1) \<le> real_of_int n"
      using b(1) by simp
    moreover have "real_of_int n \<le> \<bar>x\<bar>"
      by (simp add: n_def)
    ultimately have lo: "(2::real) ^ nat (bitlen n - 1) \<le> \<bar>x\<bar>"
      by linarith
    have "n + 1 \<le> 2 ^ nat (bitlen n)"
      using b(2) by simp
    then have "real_of_int (n + 1) \<le> (2::real) ^ nat (bitlen n)"
      by (simp only: of_int_le_numeral_power_cancel_iff)
    moreover have "\<bar>x\<bar> < real_of_int (n + 1)"
      by (simp add: n_def)
    ultimately have hi: "\<bar>x\<bar> < (2::real) ^ nat (bitlen n)"
      by linarith
    show ?thesis
      unfolding e p1 p2 using lo hi by simp
  next
    case False
    define m where "m = \<lceil>1 / \<bar>x\<bar>\<rceil> - 1"
    have xp: "0 < \<bar>x\<bar>" "\<bar>x\<bar> < 1"
      using assms False by simp_all
    then have "1 < 1 / \<bar>x\<bar>"
      by simp
    then have "1 < \<lceil>1 / \<bar>x\<bar>\<rceil>"
      by (simp add: less_ceiling_iff)
    then have m1: "1 \<le> m"
      by (simp add: m_def)
    then have b: "2 ^ nat (bitlen m - 1) \<le> m" "m < 2 ^ nat (bitlen m)"
      using bitlen_bounds [of m] by simp_all
    have k1: "1 \<le> bitlen m"
    proof (rule ccontr)
      assume "\<not> 1 \<le> bitlen m"
      then have "nat (bitlen m) = 0" by simp
      then show False using b(2) m1 by simp
    qed
    have e: "exponent x = - bitlen m"
      using False by (simp add: exponent_def m_def)
    have p1: "(2::real) powi (- bitlen m) = 1 / 2 ^ nat (bitlen m)"
      using k1 by (simp add: power_int_minus_divide power_int_nonneg_exp)
    have "(2::real) powi (- (bitlen m - 1)) = 1 / 2 ^ nat (bitlen m - 1)"
      using k1 by (simp only: power_int_minus_divide) (simp add: power_int_nonneg_exp)
    then have p2: "(2::real) powi (- bitlen m + 1) = 1 / 2 ^ nat (bitlen m - 1)"
      by (simp add: algebra_simps)
    have "m + 1 \<le> 2 ^ nat (bitlen m)"
      using b(2) by simp
    then have "real_of_int (m + 1) \<le> (2::real) ^ nat (bitlen m)"
      by (simp only: of_int_le_numeral_power_cancel_iff)
    moreover have "1 / \<bar>x\<bar> \<le> real_of_int (m + 1)"
      by (simp add: m_def)
    ultimately have "1 / \<bar>x\<bar> \<le> 2 ^ nat (bitlen m)"
      by linarith
    then have lo: "1 / 2 ^ nat (bitlen m) \<le> \<bar>x\<bar>"
      using xp(1) by (simp add: field_simps)
    have "(2::real) ^ nat (bitlen m - 1) \<le> real_of_int m"
      using b(1) by simp
    moreover have "real_of_int m < 1 / \<bar>x\<bar>"
      unfolding m_def by linarith
    ultimately have "2 ^ nat (bitlen m - 1) < 1 / \<bar>x\<bar>"
      by linarith
    then have hi: "\<bar>x\<bar> < 1 / 2 ^ nat (bitlen m - 1)"
      using xp(1) by (simp add: field_simps)
    show ?thesis
      unfolding e p1 p2 using lo hi by simp
  qed
  then show "2 powi exponent x \<le> \<bar>x\<bar>" and "\<bar>x\<bar> < 2 powi (exponent x + 1)"
    by simp_all
qed

lemma powi_less_cancel:
  assumes "(2::real) powi m < 2 powi n"
  shows "m < n"
proof (rule ccontr)
  assume "\<not> m < n"
  then have "(2::real) powi n \<le> 2 powi m"
    by (intro power_int_increasing) simp_all
  then show False using assms by simp
qed

lemma exponent_unique:
  assumes "2 powi e \<le> \<bar>x\<bar>" and "\<bar>x\<bar> < 2 powi (e + 1)"
  shows "exponent x = e"
proof -
  have "0 < (2::real) powi e" by simp
  with assms(1) have "0 < \<bar>x\<bar>" by linarith
  then have x: "x \<noteq> 0" by simp
  have "(2::real) powi exponent x < 2 powi (e + 1)"
    using exponent_bounds(1) [OF x] assms(2) by simp
  then have "exponent x < e + 1" by (rule powi_less_cancel)
  moreover have "(2::real) powi e < 2 powi (exponent x + 1)"
    using exponent_bounds(2) [OF x] assms(1) by simp
  then have "e < exponent x + 1" by (rule powi_less_cancel)
  ultimately show ?thesis by simp
qed

lemma exponent_less_iff:
  assumes "x \<noteq> 0"
  shows "exponent x < e \<longleftrightarrow> \<bar>x\<bar> < 2 powi e"
proof
  assume "exponent x < e"
  then have "(2::real) powi (exponent x + 1) \<le> 2 powi e"
    by (intro power_int_increasing) simp_all
  then show "\<bar>x\<bar> < 2 powi e"
    using exponent_bounds(2) [OF assms] by simp
next
  assume "\<bar>x\<bar> < 2 powi e"
  then have "(2::real) powi exponent x < 2 powi e"
    using exponent_bounds(1) [OF assms] by simp
  then show "exponent x < e" by (rule powi_less_cancel)
qed

lemma exponent_minus: "exponent (- x) = exponent x"
  by (simp add: exponent_def)

lemma exponent_mono:
  assumes "0 < x" and "x \<le> y"
  shows "exponent x \<le> exponent y"
proof -
  have "(2::real) powi exponent x \<le> \<bar>x\<bar>"
    using assms(1) by (intro exponent_bounds(1)) simp
  moreover have "\<bar>y\<bar> < 2 powi (exponent y + 1)"
    using assms by (intro exponent_bounds(2)) simp
  ultimately have "(2::real) powi exponent x < 2 powi (exponent y + 1)"
    using assms by simp
  then have "exponent x < exponent y + 1" by (rule powi_less_cancel)
  then show ?thesis by simp
qed

subsection \<open>Rounding to a binary64 number\<close>

lemma quantum_pos: "0 < quantum x"
  by (simp add: quantum_def)

lemma quantum_minus: "quantum (- x) = quantum x"
  by (simp add: quantum_def exponent_minus)

lemma round_real_minus: "round_real (- x) = - round_real x"
  by (simp add: round_real_def quantum_minus round_half_even_minus)

lemma powi_split: "(2::real) powi (e + 1) = 2 ^ 53 * 2 powi (e - 52)"
proof -
  have "(2::real) powi (53 + (e - 52)) = 2 powi 53 * 2 powi (e - 52)"
    by (rule power_int_add) simp
  then show ?thesis by (simp add: algebra_simps)
qed

lemma powi_split2: "(2::real) powi e = 2 ^ 52 * 2 powi (e - 52)"
proof -
  have "(2::real) powi (52 + (e - 52)) = 2 powi 52 * 2 powi (e - 52)"
    by (rule power_int_add) simp
  then show ?thesis by (simp add: algebra_simps)
qed

lemma below_next_binade:
  assumes "0 < x"
  shows "x < 2 powi (max (exponent x) (- 1022) + 1)"
proof -
  have "\<bar>x\<bar> < 2 powi (exponent x + 1)"
    using assms by (intro exponent_bounds(2)) simp
  moreover have "(2::real) powi (exponent x + 1) \<le> 2 powi (max (exponent x) (- 1022) + 1)"
    by (intro power_int_increasing) simp_all
  ultimately show ?thesis using assms by simp
qed

lemma above_binade:
  assumes "0 < x" and "- 1022 < max (exponent x) (- 1022)"
  shows "2 powi (max (exponent x) (- 1022)) \<le> x"
proof -
  have "max (exponent x) (- 1022) = exponent x"
    using assms(2) by simp
  moreover have "2 powi exponent x \<le> \<bar>x\<bar>"
    using assms(1) by (intro exponent_bounds(1)) simp
  ultimately show ?thesis using assms(1) by simp
qed

lemma round_real_upper:
  assumes "0 < x"
  shows "round_real x \<le> 2 powi (max (exponent x) (- 1022) + 1)"
proof -
  define E where "E = max (exponent x) (- 1022)"
  have q: "quantum x = 2 powi (E - 52)"
    by (simp add: quantum_def E_def)
  have qp: "0 < (2::real) powi (E - 52)" by simp
  have "x < 2 ^ 53 * 2 powi (E - 52)"
    using below_next_binade [OF assms] by (simp only: E_def [symmetric] powi_split)
  then have "x / 2 powi (E - 52) \<le> real_of_int (2 ^ 53)"
    using qp by (simp add: field_simps)
  then have "round_half_even (x / 2 powi (E - 52)) \<le> round_half_even (real_of_int (2 ^ 53))"
    by (rule round_half_even_mono)
  then have "round_half_even (x / 2 powi (E - 52)) \<le> 2 ^ 53"
    by (simp only: round_half_even_of_int)
  then have "real_of_int (round_half_even (x / 2 powi (E - 52))) \<le> real_of_int (2 ^ 53)"
    by (simp only: of_int_le_iff)
  then have "real_of_int (round_half_even (x / 2 powi (E - 52))) * 2 powi (E - 52)
      \<le> real_of_int (2 ^ 53) * 2 powi (E - 52)"
    using qp by (intro mult_right_mono) simp_all
  then have "round_real x \<le> 2 ^ 53 * 2 powi (E - 52)"
    using assms by (simp add: round_real_def q)
  then show ?thesis
    by (simp only: E_def [symmetric] powi_split)
qed

lemma round_real_lower:
  assumes "0 < x" and "- 1022 < max (exponent x) (- 1022)"
  shows "2 powi (max (exponent x) (- 1022)) \<le> round_real x"
proof -
  define E where "E = max (exponent x) (- 1022)"
  have q: "quantum x = 2 powi (E - 52)"
    by (simp add: quantum_def E_def)
  have qp: "0 < (2::real) powi (E - 52)" by simp
  have "2 powi E \<le> x"
    using above_binade [OF assms] by (simp only: E_def [symmetric])
  then have "2 ^ 52 * 2 powi (E - 52) \<le> x"
    using powi_split2 [of E] by simp
  then have "real_of_int (2 ^ 52) \<le> x / 2 powi (E - 52)"
    using qp by (simp add: field_simps)
  then have "round_half_even (real_of_int (2 ^ 52)) \<le> round_half_even (x / 2 powi (E - 52))"
    by (rule round_half_even_mono)
  then have "2 ^ 52 \<le> round_half_even (x / 2 powi (E - 52))"
    by (simp only: round_half_even_of_int)
  then have "real_of_int (2 ^ 52) \<le> real_of_int (round_half_even (x / 2 powi (E - 52)))"
    by (simp only: of_int_le_iff)
  then have "real_of_int (2 ^ 52) * 2 powi (E - 52)
      \<le> real_of_int (round_half_even (x / 2 powi (E - 52))) * 2 powi (E - 52)"
    using qp by (intro mult_right_mono) simp_all
  then have "2 ^ 52 * 2 powi (E - 52) \<le> round_real x"
    using assms(1) by (simp add: round_real_def q)
  then have "2 powi E \<le> round_real x"
    using powi_split2 [of E] by simp
  then show ?thesis
    by (simp only: E_def [symmetric])
qed

lemma round_real_nonneg:
  assumes "0 \<le> x"
  shows "0 \<le> round_real x"
proof (cases "x = 0")
  case True
  then show ?thesis by (simp add: round_real_def)
next
  case False
  have "0 \<le> x / quantum x"
    using assms quantum_pos [of x] by simp
  then have "round_half_even 0 \<le> round_half_even (x / quantum x)"
    by (rule round_half_even_mono)
  then have "0 \<le> round_half_even (x / quantum x)"
    using round_half_even_of_int [of 0] by simp
  then show ?thesis
    using False quantum_pos [of x] by (simp add: round_real_def)
qed

lemma round_real_mono_pos:
  assumes "0 < x" and "x \<le> y"
  shows "round_real x \<le> round_real y"
proof -
  define E where "E = max (exponent x) (- 1022)"
  define F where "F = max (exponent y) (- 1022)"
  have y: "0 < y" using assms by simp
  have EF: "E \<le> F"
    using exponent_mono [OF assms] by (simp add: E_def F_def)
  show ?thesis
  proof (cases "E = F")
    case True
    then have q: "quantum y = quantum x"
      by (simp add: quantum_def E_def F_def)
    have "x / quantum x \<le> y / quantum x"
      using assms(2) quantum_pos [of x] by (simp add: divide_right_mono)
    then have "round_half_even (x / quantum x) \<le> round_half_even (y / quantum x)"
      by (rule round_half_even_mono)
    then have "real_of_int (round_half_even (x / quantum x)) * quantum x
        \<le> real_of_int (round_half_even (y / quantum x)) * quantum x"
      using quantum_pos [of x] by (intro mult_right_mono) simp_all
    then show ?thesis
      using assms(1) y by (simp add: round_real_def q)
  next
    case False
    have "- 1022 \<le> E" by (simp add: E_def)
    then have lt: "E + 1 \<le> F" "- 1022 < F"
      using False EF by linarith+
    have "round_real x \<le> 2 powi (E + 1)"
      using round_real_upper [OF assms(1)] by (simp only: E_def [symmetric])
    also have "(2::real) powi (E + 1) \<le> 2 powi F"
      using lt(1) by (intro power_int_increasing) simp_all
    also have "2 powi F \<le> round_real y"
      using round_real_lower [OF y] lt(2) by (simp only: F_def [symmetric])
    finally show ?thesis .
  qed
qed

lemma round_real_mono:
  assumes "x \<le> y"
  shows "round_real x \<le> round_real y"
proof -
  consider "0 < x" | "y < 0" | "x \<le> 0" "0 \<le> y"
    using assms by linarith
  then show ?thesis
  proof cases
    case 1
    then show ?thesis using assms by (rule round_real_mono_pos)
  next
    case 2
    then have "round_real (- y) \<le> round_real (- x)"
      using assms by (intro round_real_mono_pos) simp_all
    then show ?thesis by (simp add: round_real_minus)
  next
    case 3
    have "0 \<le> round_real (- x)"
      using 3(1) by (intro round_real_nonneg) simp
    then have "round_real x \<le> 0"
      by (simp add: round_real_minus)
    moreover have "0 \<le> round_real y"
      using 3(2) by (rule round_real_nonneg)
    ultimately show ?thesis by simp
  qed
qed

lemma round_real_idem_pos:
  assumes "0 < x"
  shows "round_real (round_real x) = round_real x"
proof -
  define E where "E = max (exponent x) (- 1022)"
  define k where "k = round_half_even (x / 2 powi (E - 52))"
  define y where "y = round_real x"
  have E: "- 1022 \<le> E" by (simp add: E_def)
  have yk: "y = real_of_int k * 2 powi (E - 52)"
    using assms by (simp add: y_def round_real_def quantum_def E_def k_def)
  have y0: "0 \<le> y"
    using assms by (simp add: y_def round_real_nonneg)
  have up: "y \<le> 2 powi (E + 1)"
    using round_real_upper [OF assms] by (simp only: E_def [symmetric] y_def)
  have "round_real y = y"
  proof (cases "y = 0")
    case True
    then show ?thesis by (simp add: round_real_def)
  next
    case False
    then have yp: "0 < y" using y0 by simp
    show ?thesis
    proof (cases "y = 2 powi (E + 1)")
      case True
      have "(2::real) powi (E + 1) < 2 powi (E + 1 + 1)"
        by (intro power_int_strict_increasing) simp_all
      then have "exponent y = E + 1"
        using yp True by (intro exponent_unique) simp_all
      then have q: "quantum y = 2 powi (E + 1 - 52)"
        using E by (simp add: quantum_def)
      have "y = real_of_int (2 ^ 52) * 2 powi (E + 1 - 52)"
        using powi_split2 [of "E + 1"] True by simp
      then have "y / 2 powi (E + 1 - 52) = real_of_int (2 ^ 52)"
        by simp
      then have rk: "round_half_even (y / 2 powi (E + 1 - 52)) = 2 ^ 52"
        by (simp only: round_half_even_of_int)
      have "round_real y
          = real_of_int (round_half_even (y / 2 powi (E + 1 - 52))) * 2 powi (E + 1 - 52)"
        using \<open>y \<noteq> 0\<close> by (simp add: round_real_def q)
      also have "\<dots> = real_of_int (2 ^ 52) * 2 powi (E + 1 - 52)"
        by (simp only: rk)
      also have "\<dots> = y"
        using \<open>y = real_of_int (2 ^ 52) * 2 powi (E + 1 - 52)\<close> by simp
      finally show ?thesis .
    next
      case False
      then have lt: "y < 2 powi (E + 1)"
        using up by simp
      have "max (exponent y) (- 1022) = E"
      proof (cases "- 1022 < E")
        case True
        then have "2 powi E \<le> y"
          using round_real_lower [OF assms] by (simp only: E_def [symmetric] y_def)
        then have "exponent y = E"
          using lt yp by (intro exponent_unique) simp_all
        then show ?thesis using E by simp
      next
        case False
        then have E': "E = - 1022" using E by simp
        have "exponent y < E + 1"
          using lt yp exponent_less_iff [of y "E + 1"] by simp
        then show ?thesis using E' by simp
      qed
      then have q: "quantum y = 2 powi (E - 52)"
        by (simp add: quantum_def)
      have "y / 2 powi (E - 52) = real_of_int k"
        by (simp add: yk)
      then have rk: "round_half_even (y / 2 powi (E - 52)) = k"
        by (simp only: round_half_even_of_int)
      have "round_real y = real_of_int (round_half_even (y / 2 powi (E - 52))) * 2 powi (E - 52)"
        using \<open>y \<noteq> 0\<close> by (simp add: round_real_def q)
      also have "\<dots> = real_of_int k * 2 powi (E - 52)"
        by (simp only: rk)
      also have "\<dots> = y"
        by (simp only: yk)
      finally show ?thesis .
    qed
  qed
  then show ?thesis by (simp only: y_def)
qed

lemma round_real_idem: "round_real (round_real x) = round_real x"
proof -
  consider "0 < x" | "x = 0" | "x < 0" by linarith
  then show ?thesis
  proof cases
    case 1
    then show ?thesis by (rule round_real_idem_pos)
  next
    case 2
    then show ?thesis by (simp add: round_real_def)
  next
    case 3
    then have "round_real (round_real (- x)) = round_real (- x)"
      by (intro round_real_idem_pos) simp
    then show ?thesis by (simp add: round_real_minus)
  qed
qed

subsection \<open>Finite results\<close>

lemma round64_eq_Some:
  "round64 x = Some y \<longleftrightarrow> y = round_real x \<and> \<bar>round_real x\<bar> < 2 powi 1024"
proof (cases "round_real x = 0")
  case True
  have "exponent 0 = 0" by (simp add: exponent_def bitlen_eq_zero_iff)
  then show ?thesis using True by (auto simp: round64_def)
next
  case False
  have "exponent (round_real x) < 1024 \<longleftrightarrow> \<bar>round_real x\<bar> < 2 powi 1024"
    using False by (rule exponent_less_iff)
  then show ?thesis by (auto simp: round64_def Let_def)
qed

lemma round64_between:
  assumes "round64 lo = Some lo'" and "round64 hi = Some hi'" and "lo \<le> x" and "x \<le> hi"
  shows "\<exists>y. round64 x = Some y \<and> lo' \<le> y \<and> y \<le> hi'"
proof -
  have l: "lo' = round_real lo" "\<bar>lo'\<bar> < 2 powi 1024"
    using assms(1) by (simp_all add: round64_eq_Some)
  have h: "hi' = round_real hi" "\<bar>hi'\<bar> < 2 powi 1024"
    using assms(2) by (simp_all add: round64_eq_Some)
  have b: "lo' \<le> round_real x" "round_real x \<le> hi'"
    unfolding l(1) h(1) using assms(3,4) by (simp_all add: round_real_mono)
  then have "\<bar>round_real x\<bar> < 2 powi 1024"
    using l(2) h(2) by linarith
  then show ?thesis
    using b by (simp add: round64_eq_Some)
qed

lemma round64_idem:
  assumes "round64 x = Some y"
  shows "round64 y = Some y"
  using assms by (simp add: round64_eq_Some round_real_idem)

lemma round64_0: "round64 0 = Some 0"
  by (simp add: round64_eq_Some round_real_def)

lemma round64_1: "round64 1 = Some 1"
  by code_simp

lemma round64_minus_1: "round64 (- 1) = Some (- 1)"
  by code_simp

lemma round64_int_bounds:
  "round64 (- (2 ^ 63)) = Some (- (2 ^ 63)) \<and> round64 (2 ^ 63) = Some (2 ^ 63)"
  by code_simp

lemma round64_mono:
  assumes "round64 x = Some a" and "round64 y = Some b" and "x \<le> y"
  shows "a \<le> b"
  using assms by (simp add: round64_eq_Some round_real_mono)

lemma round_real_exact:
  assumes "2 ^ 52 \<le> \<bar>k\<bar>" and "\<bar>k\<bar> < 2 ^ 53" and "- 1022 \<le> e"
  shows "round_real (real_of_int k * 2 powi (e - 52)) = real_of_int k * 2 powi (e - 52)"
    and "\<bar>real_of_int k * 2 powi (e - 52)\<bar> < 2 powi (e + 1)"
proof -
  define x where "x = real_of_int k * 2 powi (e - 52)"
  have qp: "0 < (2::real) powi (e - 52)" by simp
  have ax: "\<bar>x\<bar> = real_of_int \<bar>k\<bar> * 2 powi (e - 52)"
    by (simp add: x_def abs_mult)
  have "real_of_int (2 ^ 52) \<le> real_of_int \<bar>k\<bar>"
    using assms(1) by (simp only: of_int_le_iff)
  then have "real_of_int (2 ^ 52) * 2 powi (e - 52) \<le> real_of_int \<bar>k\<bar> * 2 powi (e - 52)"
    using qp by (intro mult_right_mono) simp_all
  then have lo: "2 powi e \<le> \<bar>x\<bar>"
    using powi_split2 [of e] ax by simp
  have "real_of_int \<bar>k\<bar> < real_of_int (2 ^ 53)"
    using assms(2) by (simp only: of_int_less_iff)
  then have "real_of_int \<bar>k\<bar> * 2 powi (e - 52) < real_of_int (2 ^ 53) * 2 powi (e - 52)"
    using qp by (intro mult_strict_right_mono) simp_all
  then have hi: "\<bar>x\<bar> < 2 powi (e + 1)"
    using powi_split [of e] ax by simp
  have ex: "exponent x = e"
    using lo hi by (rule exponent_unique)
  have q: "quantum x = 2 powi (e - 52)"
    using assms(3) by (simp add: quantum_def ex)
  have "0 < (2::real) powi e" by simp
  with lo have "0 < \<bar>x\<bar>" by linarith
  then have x0: "x \<noteq> 0" by simp
  have "x / 2 powi (e - 52) = real_of_int k"
    by (simp add: x_def)
  then have rk: "round_half_even (x / 2 powi (e - 52)) = k"
    by (simp only: round_half_even_of_int)
  have rr: "round_real x = real_of_int (round_half_even (x / 2 powi (e - 52))) * 2 powi (e - 52)"
    using x0 by (simp add: round_real_def q)
  have r: "round_real x = x"
    unfolding rr rk by (simp only: x_def)
  show "round_real (real_of_int k * 2 powi (e - 52)) = real_of_int k * 2 powi (e - 52)"
    using r by (simp only: x_def)
  show "\<bar>real_of_int k * 2 powi (e - 52)\<bar> < 2 powi (e + 1)"
    using hi by (simp only: x_def)
qed

lemma round64_exact:
  assumes "2 ^ 52 \<le> \<bar>k\<bar>" and "\<bar>k\<bar> < 2 ^ 53" and "- 1022 \<le> e" and "e \<le> 1023"
  shows "round64 (real_of_int k * 2 powi (e - 52)) = Some (real_of_int k * 2 powi (e - 52))"
proof -
  have "(2::real) powi (e + 1) \<le> 2 powi 1024"
    using assms(4) by (intro power_int_increasing) simp_all
  then have "\<bar>real_of_int k * 2 powi (e - 52)\<bar> < 2 powi 1024"
    using round_real_exact(2) [OF assms(1-3)] by linarith
  then show ?thesis
    by (simp add: round64_eq_Some round_real_exact(1) [OF assms(1-3)])
qed

lemma round64_overflow:
  assumes "2 powi 1024 \<le> x"
  shows "round64 x = None"
proof -
  have "round_real (real_of_int (2 ^ 52) * 2 powi (1024 - 52)) = real_of_int (2 ^ 52) * 2 powi (1024 - 52)"
    by (rule round_real_exact(1)) simp_all
  moreover have "real_of_int (2 ^ 52) * 2 powi (1024 - 52) = (2::real) powi 1024"
    using powi_split2 [of 1024] by simp
  ultimately have "round_real (2 powi 1024) = 2 powi 1024"
    by simp
  then have "2 powi 1024 \<le> round_real x"
    using round_real_mono [OF assms] by simp
  then have n: "\<not> \<bar>round_real x\<bar> < 2 powi 1024"
    by linarith
  show ?thesis
  proof (cases "round64 x")
    case None
    then show ?thesis .
  next
    case (Some y)
    then show ?thesis
      using n by (simp add: round64_eq_Some)
  qed
qed

section \<open>Decoding to a \<^verbatim>\<open>float64\<close>\<close>

lemma BytesToFloat_overflow:
  assumes "2 powi 1024 \<le> maxv - minv"
  shows "BytesToFloat genes minv maxv = None"
  using round64_overflow [OF assms]
  by (simp add: BytesToFloat_def Let_def split: Option.bind_splits)

lemma BytesToFloat_empty: "BytesToFloat [] minv maxv = None"
  by (simp add: BytesToFloat_def BytesToInt_def round64_0)

lemma BytesToFloat_eqI:
  assumes "round64 (real_of_int (sint (BytesToInt genes))) = Some a"
    and "round64 (real_of_int (sint (2 ^ length genes - 1 :: 64 word))) = Some b"
    and "b \<noteq> 0"
    and "round64 (a / b) = Some n"
    and "round64 (maxv - minv) = Some w"
    and "round64 (n * w) = Some s"
    and "round64 (minv + s) = Some y"
  shows "BytesToFloat genes minv maxv = Some y"
  using assms by (simp add: BytesToFloat_def Let_def del: of_int_sint)

lemma round64_maxInt:
  assumes "1 \<le> L"
  shows "\<exists>b. round64 (real_of_int (sint (2 ^ L - 1 :: 64 word))) = Some b \<and> b \<noteq> 0 \<and>
             (L \<le> 63 \<longrightarrow> 1 \<le> b)"
proof (cases "L \<le> 63")
  case True
  have "1 < (2::int) ^ L"
    using assms by (intro one_less_power) simp_all
  moreover have "(2::int) ^ L \<le> 2 ^ 63"
    using True by (intro power_increasing) simp_all
  ultimately have m: "1 \<le> sint (2 ^ L - 1 :: 64 word)" "sint (2 ^ L - 1 :: 64 word) \<le> 2 ^ 63"
    using True by (simp_all add: sint_maxInt)
  have "real_of_int 1 \<le> real_of_int (sint (2 ^ L - 1 :: 64 word))"
    using m(1) by (simp only: of_int_le_iff)
  then have lo: "1 \<le> real_of_int (sint (2 ^ L - 1 :: 64 word))"
    by (simp del: of_int_sint)
  have "real_of_int (sint (2 ^ L - 1 :: 64 word)) \<le> real_of_int (2 ^ 63)"
    using m(2) by (simp only: of_int_le_iff)
  then have hi: "real_of_int (sint (2 ^ L - 1 :: 64 word)) \<le> 2 ^ 63"
    by (simp del: of_int_sint)
  obtain b where "round64 (real_of_int (sint (2 ^ L - 1 :: 64 word))) = Some b" "1 \<le> b"
    using round64_between [OF round64_1 conjunct2 [OF round64_int_bounds] lo hi] by blast
  then show ?thesis by auto
next
  case False
  then have "sint (2 ^ L - 1 :: 64 word) = - 1"
    by (simp add: sint_maxInt_wide)
  then have "round64 (real_of_int (sint (2 ^ L - 1 :: 64 word))) = Some (- 1)"
    by (simp add: round64_minus_1 del: of_int_sint)
  then show ?thesis using False by simp
qed

lemma BytesToFloat_zeros:
  assumes "1 \<le> L" and "round64 minv = Some minv" and "round64 (maxv - minv) = Some d"
  shows "BytesToFloat (replicate L 0) minv maxv = Some minv"
proof -
  obtain b where b: "round64 (real_of_int (sint (2 ^ L - 1 :: 64 word))) = Some b" "b \<noteq> 0"
    using round64_maxInt [OF assms(1)] by blast
  show ?thesis
  proof (rule BytesToFloat_eqI)
    show "round64 (real_of_int (sint (BytesToInt (replicate L 0)))) = Some 0"
      by (simp add: BytesToInt_zeros round64_0)
    show "round64 (real_of_int (sint (2 ^ length (replicate L (0::byte)) - 1 :: 64 word))) = Some b"
      using b(1) by (simp del: of_int_sint)
    show "b \<noteq> 0" by (rule b(2))
    show "round64 (0 / b) = Some 0" by (simp add: round64_0)
    show "round64 (maxv - minv) = Some d" by (rule assms(3))
    show "round64 (0 * d) = Some 0" by (simp add: round64_0)
    show "round64 (minv + 0) = Some minv" by (simp add: assms(2))
  qed
qed

lemma BytesToFloat_ones:
  assumes "1 \<le> L" and "round64 (maxv - minv) = Some d" and "round64 (minv + d) = Some upper"
  shows "BytesToFloat (replicate L 1) minv maxv = Some upper"
proof -
  obtain b where b: "round64 (real_of_int (sint (2 ^ L - 1 :: 64 word))) = Some b" "b \<noteq> 0"
    using round64_maxInt [OF assms(1)] by blast
  have ones: "BytesToInt (replicate L 1) = 2 ^ L - 1"
    by (simp add: BytesToInt_ones)
  show ?thesis
  proof (rule BytesToFloat_eqI)
    show "round64 (real_of_int (sint (BytesToInt (replicate L 1)))) = Some b"
      using b(1) by (simp only: ones)
    show "round64 (real_of_int (sint (2 ^ length (replicate L (1::byte)) - 1 :: 64 word))) = Some b"
      using b(1) by (simp del: of_int_sint)
    show "b \<noteq> 0" by (rule b(2))
    show "round64 (b / b) = Some 1" using b(2) by (simp add: round64_1)
    show "round64 (maxv - minv) = Some d" by (rule assms(2))
    show "round64 (1 * d) = Some d" using round64_idem [OF assms(2)] by simp
    show "round64 (minv + d) = Some upper" by (rule assms(3))
  qed
qed

lemma BytesToFloat_mono:
  assumes "1 \<le> L" and "L \<le> 63" and "length g1 = L" and "length g2 = L"
    and "sint (BytesToInt g1) \<le> sint (BytesToInt g2)"
    and "round64 minv = Some minv" and "minv \<le> maxv"
    and "round64 (maxv - minv) = Some d" and "round64 (minv + d) = Some upper"
  shows "\<exists>y1 y2. BytesToFloat g1 minv maxv = Some y1 \<and> BytesToFloat g2 minv maxv = Some y2 \<and>
                 minv \<le> y1 \<and> y1 \<le> y2 \<and> y2 \<le> upper"
proof -
  define v1 where "v1 = real_of_int (sint (BytesToInt g1))"
  define v2 where "v2 = real_of_int (sint (BytesToInt g2))"
  define m where "m = real_of_int (sint (2 ^ L - 1 :: 64 word))"
  have "0 \<le> sint (BytesToInt g1)"
    using assms(2,3) by (intro BytesToInt_range(1)) simp
  then have "real_of_int 0 \<le> real_of_int (sint (BytesToInt g1))"
    by (simp only: of_int_le_iff)
  then have v1: "0 \<le> v1"
    by (simp add: v1_def del: of_int_sint)
  have "real_of_int (sint (BytesToInt g1)) \<le> real_of_int (sint (BytesToInt g2))"
    using assms(5) by (simp only: of_int_le_iff)
  then have v12: "v1 \<le> v2"
    by (simp only: v1_def v2_def)
  have "sint (BytesToInt g2) \<le> 2 ^ length g2 - 1"
    using assms(2,4) by (intro BytesToInt_range(2)) simp
  then have "sint (BytesToInt g2) \<le> sint (2 ^ L - 1 :: 64 word)"
    using assms(2,4) by (simp add: sint_maxInt)
  then have "real_of_int (sint (BytesToInt g2)) \<le> real_of_int (sint (2 ^ L - 1 :: 64 word))"
    by (simp only: of_int_le_iff)
  then have v2m: "v2 \<le> m"
    by (simp only: v2_def m_def)
  obtain b where b: "round64 m = Some b" "b \<noteq> 0" "1 \<le> b"
    using round64_maxInt [OF assms(1)] assms(2) unfolding m_def by blast
  obtain a2 where a2: "round64 v2 = Some a2" "0 \<le> a2" "a2 \<le> b"
    using round64_between [OF round64_0 b(1), of v2] v1 v12 v2m by auto
  obtain a1 where a1: "round64 v1 = Some a1" "0 \<le> a1" "a1 \<le> a2"
    using round64_between [OF round64_0 a2(1), of v1] v1 v12 by auto
  have bp: "0 < b" using b(3) by simp
  have q2: "0 \<le> a2 / b" "a2 / b \<le> 1"
    using a2(2,3) bp by simp_all
  have q1: "0 \<le> a1 / b" "a1 / b \<le> a2 / b"
    using a1(2,3) bp by (simp_all add: divide_right_mono)
  obtain n2 where n2: "round64 (a2 / b) = Some n2" "0 \<le> n2" "n2 \<le> 1"
    using round64_between [OF round64_0 round64_1 q2] by auto
  obtain n1 where n1: "round64 (a1 / b) = Some n1" "0 \<le> n1" "n1 \<le> n2"
    using round64_between [OF round64_0 n2(1) q1] by auto
  have d0: "0 \<le> d"
    using round64_mono [OF round64_0 assms(8)] assms(7) by simp
  have dd: "round64 d = Some d"
    using assms(8) by (rule round64_idem)
  have w2: "0 \<le> n2 * d" "n2 * d \<le> d"
    using n2(2,3) d0 by (simp_all add: mult_left_le_one_le)
  have w1: "0 \<le> n1 * d" "n1 * d \<le> n2 * d"
    using n1(2,3) d0 by (simp_all add: mult_right_mono)
  obtain s2 where s2: "round64 (n2 * d) = Some s2" "0 \<le> s2" "s2 \<le> d"
    using round64_between [OF round64_0 dd w2] by auto
  obtain s1 where s1: "round64 (n1 * d) = Some s1" "0 \<le> s1" "s1 \<le> s2"
    using round64_between [OF round64_0 s2(1) w1] by auto
  have e2: "minv \<le> minv + s2" "minv + s2 \<le> minv + d"
    using s2(2,3) by simp_all
  have e1: "minv \<le> minv + s1" "minv + s1 \<le> minv + s2"
    using s1(2,3) by simp_all
  obtain y2 where y2: "round64 (minv + s2) = Some y2" "minv \<le> y2" "y2 \<le> upper"
    using round64_between [OF assms(6) assms(9) e2] by auto
  obtain y1 where y1: "round64 (minv + s1) = Some y1" "minv \<le> y1" "y1 \<le> y2"
    using round64_between [OF assms(6) y2(1) e1] by auto
  have "BytesToFloat g1 minv maxv = Some y1"
  proof (rule BytesToFloat_eqI)
    show "round64 (real_of_int (sint (BytesToInt g1))) = Some a1"
      using a1(1) by (simp only: v1_def)
    show "round64 (real_of_int (sint (2 ^ length g1 - 1 :: 64 word))) = Some b"
      using b(1) by (simp only: m_def assms(3))
    show "b \<noteq> 0" by (rule b(2))
    show "round64 (a1 / b) = Some n1" by (rule n1(1))
    show "round64 (maxv - minv) = Some d" by (rule assms(8))
    show "round64 (n1 * d) = Some s1" by (rule s1(1))
    show "round64 (minv + s1) = Some y1" by (rule y1(1))
  qed
  moreover have "BytesToFloat g2 minv maxv = Some y2"
  proof (rule BytesToFloat_eqI)
    show "round64 (real_of_int (sint (BytesToInt g2))) = Some a2"
      using a2(1) by (simp only: v2_def)
    show "round64 (real_of_int (sint (2 ^ length g2 - 1 :: 64 word))) = Some b"
      using b(1) by (simp only: m_def assms(4))
    show "b \<noteq> 0" by (rule b(2))
    show "round64 (a2 / b) = Some n2" by (rule n2(1))
    show "round64 (maxv - minv) = Some d" by (rule assms(8))
    show "round64 (n2 * d) = Some s2" by (rule s2(1))
    show "round64 (minv + s2) = Some y2" by (rule y2(1))
  qed
  ultimately show ?thesis
    using y1(2,3) y2(3) by blast
qed

text \<open>
  Claim C9, as stated, fails in three ways.

  \<^item> Gene length 64: \<^verbatim>\<open>1 << 64\<close> is 0 in a 64-bit \<^verbatim>\<open>int\<close>, so \<^verbatim>\<open>maxInt\<close> is \<open>-1\<close>, and with the
    bounds 0 and 1 the decoded value falls from 0 to \<open>-1\<close> as the decoded integer rises from 0
    to 1.
  \<^item> Rounding: with \<^verbatim>\<open>min\<close> the \<^verbatim>\<open>float64\<close> nearest to 0.2 and \<^verbatim>\<open>max\<close> the \<^verbatim>\<open>float64\<close> nearest
    to 0.9, the all-ones vector decodes to the \<^verbatim>\<open>float64\<close> just below \<^verbatim>\<open>max\<close>
    (0.8999999999999999): \<^verbatim>\<open>max - min\<close> is rounded, and \<^verbatim>\<open>min\<close> plus the rounded difference is
    rounded again.
  \<^item> Overflow: with \<^verbatim>\<open>max\<close> the \<^verbatim>\<open>float64\<close> \<open>5010420900022432 * 2 ^ 971\<close> (the one nearest to
    \<^verbatim>\<open>1e308\<close>) and \<^verbatim>\<open>min\<close> its negation, \<^verbatim>\<open>max - min\<close> is not finite and the all-zero vector does
    not decode to \<^verbatim>\<open>min\<close>.
\<close>

theorem BytesToFloat_counterexamples:
  "sint (BytesToInt (replicate 64 0)) = 0 \<and>
   sint (BytesToInt (1 # replicate 63 0)) = 1 \<and>
   BytesToFloat (replicate 64 0) 0 1 = Some 0 \<and>
   BytesToFloat (1 # replicate 63 0) 0 1 = Some (- 1) \<and>
   round64 (2 / 10) = Some (3602879701896397 / 2 ^ 54) \<and>
   round64 (9 / 10) = Some (8106479329266893 / 2 ^ 53) \<and>
   BytesToFloat [1, 1, 1, 1] (3602879701896397 / 2 ^ 54) (8106479329266893 / 2 ^ 53)
     = Some (8106479329266892 / 2 ^ 53) \<and>
   round64 (5010420900022432 * 2 ^ 971) = Some (5010420900022432 * 2 ^ 971) \<and>
   BytesToFloat [0, 0, 0, 0] (- (5010420900022432 * 2 ^ 971)) (5010420900022432 * 2 ^ 971) = None"
proof -
  have i: "sint (BytesToInt (replicate 64 0)) = 0 \<and> sint (BytesToInt (1 # replicate 63 0)) = 1"
    by code_simp
  have a: "BytesToFloat (replicate 64 0) 0 1 = Some 0"
    by code_simp
  have b: "BytesToFloat (1 # replicate 63 0) 0 1 = Some (- 1)"
    by code_simp
  have c: "round64 (2 / 10) = Some (3602879701896397 / 2 ^ 54)"
    by code_simp
  have d: "round64 (9 / 10) = Some (8106479329266893 / 2 ^ 53)"
    by code_simp
  have e: "BytesToFloat [1, 1, 1, 1] (3602879701896397 / 2 ^ 54) (8106479329266893 / 2 ^ 53)
      = Some (8106479329266892 / 2 ^ 53)"
    by code_simp
  have "round64 (real_of_int 5010420900022432 * 2 powi (1023 - 52))
      = Some (real_of_int 5010420900022432 * 2 powi (1023 - 52))"
    by (rule round64_exact) simp_all
  then have f: "round64 (5010420900022432 * 2 ^ 971) = Some (5010420900022432 * 2 ^ 971)"
    by simp
  have "(2::real) powi 1024 \<le> 5010420900022432 * 2 ^ 971 - - (5010420900022432 * 2 ^ 971)"
    by simp
  then have g: "BytesToFloat [0, 0, 0, 0] (- (5010420900022432 * 2 ^ 971)) (5010420900022432 * 2 ^ 971) = None"
    by (rule BytesToFloat_overflow)
  from i a b c d e f g show ?thesis
    by (intro conjI) (rule conjunct1 [OF i] conjunct2 [OF i] a b c d e f g)+
qed

text \<open>
  Claim C9, amended. Let \<open>minv \<le> maxv\<close> be finite \<^verbatim>\<open>float64\<close> values such that the rounded
  difference \<open>d\<close> of \<open>maxv\<close> and \<open>minv\<close> is finite and the rounded sum \<open>upper\<close> of \<open>minv\<close> and \<open>d\<close>
  is finite. For every gene length \<open>L \<ge> 1\<close> the all-zero vector decodes to \<open>minv\<close> and the
  all-ones vector decodes to \<open>upper\<close>, which is \<open>maxv\<close> whenever the difference is exact. For
  \<open>L \<le> 63\<close>, two vectors of length \<open>L\<close> ordered by their decoded integers decode to finite
  values in the same order, both between \<open>minv\<close> and \<open>upper\<close>.
\<close>

theorem BytesToFloat_endpoints_monotone:
  assumes "1 \<le> L"
    and "round64 minv = Some minv" and "round64 maxv = Some maxv" and "minv \<le> maxv"
    and "round64 (maxv - minv) = Some d" and "round64 (minv + d) = Some upper"
  shows "BytesToFloat (replicate L 0) minv maxv = Some minv \<and>
         BytesToFloat (replicate L 1) minv maxv = Some upper \<and>
         (d = maxv - minv \<longrightarrow> upper = maxv) \<and>
         (L \<le> 63 \<longrightarrow>
            (\<forall>g1 g2. length g1 = L \<and> length g2 = L \<and>
                      sint (BytesToInt g1) \<le> sint (BytesToInt g2) \<longrightarrow>
                      (\<exists>y1 y2. BytesToFloat g1 minv maxv = Some y1 \<and>
                               BytesToFloat g2 minv maxv = Some y2 \<and>
                               minv \<le> y1 \<and> y1 \<le> y2 \<and> y2 \<le> upper)))"
proof (intro conjI impI allI)
  show "BytesToFloat (replicate L 0) minv maxv = Some minv"
    using assms(1,2,5) by (rule BytesToFloat_zeros)
  show "BytesToFloat (replicate L 1) minv maxv = Some upper"
    using assms(1,5,6) by (rule BytesToFloat_ones)
  show "upper = maxv" if "d = maxv - minv"
    using assms(3,6) that by simp
  show "\<exists>y1 y2. BytesToFloat g1 minv maxv = Some y1 \<and> BytesToFloat g2 minv maxv = Some y2 \<and>
                 minv \<le> y1 \<and> y1 \<le> y2 \<and> y2 \<le> upper"
    if "L \<le> 63" and "length g1 = L \<and> length g2 = L \<and> sint (BytesToInt g1) \<le> sint (BytesToInt g2)"
    for g1 g2
    using that assms by (intro BytesToFloat_mono [where L = L and d = d]) simp_all
qed

theorem BytesToFloat_endpoints_monotone_witness:
  "(1::nat) \<le> 3 \<and> round64 2 = Some 2 \<and> round64 5 = Some 5 \<and> (2::real) \<le> 5 \<and>
   round64 (5 - 2) = Some 3 \<and> round64 (2 + 3) = Some 5 \<and>
   BytesToFloat [0, 0, 0] 2 5 = Some 2 \<and> BytesToFloat [1, 1, 1] 2 5 = Some 5 \<and>
   sint (BytesToInt [1, 0, 0]) \<le> sint (BytesToInt [0, 1, 0]) \<and>
   (\<exists>y1 y2. BytesToFloat [1, 0, 0] 2 5 = Some y1 \<and> BytesToFloat [0, 1, 0] 2 5 = Some y2 \<and>
            2 \<le> y1 \<and> y1 \<le> y2 \<and> y2 \<le> 5)"
proof -
  have r0: "replicate 3 (0::byte) = [0, 0, 0]" and r1: "replicate 3 (1::byte) = [1, 1, 1]"
    by (simp_all add: numeral_3_eq_3)
  have h2: "round64 2 = Some 2" by code_simp
  have h5: "round64 5 = Some 5" by code_simp
  have hd: "round64 (5 - 2) = Some 3" by code_simp
  have hu: "round64 (2 + 3) = Some 5" by code_simp
  have le: "sint (BytesToInt [1, 0, 0]) \<le> sint (BytesToInt [0, 1, 0])"
    by code_simp
  have inst: "BytesToFloat (replicate 3 0) 2 5 = Some 2 \<and>
        BytesToFloat (replicate 3 1) 2 5 = Some 5 \<and>
        ((3::real) = 5 - 2 \<longrightarrow> (5::real) = 5) \<and>
        ((3::nat) \<le> 63 \<longrightarrow>
           (\<forall>g1 g2. length g1 = 3 \<and> length g2 = 3 \<and>
                     sint (BytesToInt g1) \<le> sint (BytesToInt g2) \<longrightarrow>
                     (\<exists>y1 y2. BytesToFloat g1 2 5 = Some y1 \<and> BytesToFloat g2 2 5 = Some y2 \<and>
                              2 \<le> y1 \<and> y1 \<le> y2 \<and> y2 \<le> 5)))"
    by (rule BytesToFloat_endpoints_monotone [where L = 3 and minv = 2 and maxv = 5 and d = 3 and upper = 5,
          OF _ h2 h5 _ hd hu]) simp_all
  have z: "BytesToFloat [0, 0, 0] 2 5 = Some 2" and o: "BytesToFloat [1, 1, 1] 2 5 = Some 5"
    using inst unfolding r0 r1 by simp_all
  have "length [1, 0, 0 :: byte] = 3 \<and> length [0, 1, 0 :: byte] = 3 \<and>
      sint (BytesToInt [1, 0, 0]) \<le> sint (BytesToInt [0, 1, 0])"
    using le by simp
  moreover have "\<forall>g1 g2. length g1 = 3 \<and> length g2 = 3 \<and>
                     sint (BytesToInt g1) \<le> sint (BytesToInt g2) \<longrightarrow>
                     (\<exists>y1 y2. BytesToFloat g1 2 5 = Some y1 \<and> BytesToFloat g2 2 5 = Some y2 \<and>
                              2 \<le> y1 \<and> y1 \<le> y2 \<and> y2 \<le> 5)"
    using inst by simp
  ultimately have m: "\<exists>y1 y2. BytesToFloat [1, 0, 0] 2 5 = Some y1 \<and> BytesToFloat [0, 1, 0] 2 5 = Some y2 \<and>
            2 \<le> y1 \<and> y1 \<le> y2 \<and> y2 \<le> 5"
    by blast
  have one: "(1::nat) \<le> 3" and two: "(2::real) \<le> 5" by simp_all
  show ?thesis
    by (intro conjI) (rule one h2 h5 two hd hu z o le m)+
qed

section \<open>The engine runs to completion\<close>

lemma for_each_invariant:
  assumes "P a" and "\<And>i a. P a \<Longrightarrow> \<exists>a'. body i a = Some a' \<and> P a'"
  shows "\<exists>a'. for_each is body a = Some a' \<and> P a'"
  using assms(1)
proof (induction "is" arbitrary: a)
  case Nil
  then show ?case by simp
next
  case (Cons i "is")
  from assms(2) [OF Cons.prems] obtain a' where "body i a = Some a'" "P a'"
    by blast
  with Cons.IH [of a'] show ?case by simp
qed

lemma store_le_refl: "store_le h h"
  by (simp add: store_le_def)

lemma store_le_trans: "store_le h1 h2 \<Longrightarrow> store_le h2 h3 \<Longrightarrow> store_le h1 h3"
  by (auto simp: store_le_def)

lemma store_le_append: "store_le h (h @ xs)"
  by (simp add: store_le_def nth_append)

lemma store_le_update: "length g = length (bytes_at h a) \<Longrightarrow> store_le h (h[a := g])"
  by (auto simp: store_le_def bytes_at_def nth_list_update split: if_splits)

lemma genes_ok_mono: "store_le h h' \<Longrightarrow> genes_ok h L x \<Longrightarrow> genes_ok h' L x"
  by (auto simp: store_le_def genes_ok_def)

lemma genes_ok_bytes_at: "genes_ok h L x \<Longrightarrow> length (bytes_at h (Genes x)) = L"
  by (simp add: genes_ok_def bytes_at_def)

lemma Intn_bound: "Intn_in_range lib \<Longrightarrow> 0 < n \<Longrightarrow> Intn lib n s = (k, s') \<Longrightarrow> k < n"
  unfolding Intn_in_range_def by (metis fst_conv)

lemma tournament_round_ok:
  assumes "Intn_in_range lib" "pop \<noteq> []" "best \<in> set pop"
  shows "\<exists>b s'. tournament_round lib pop i (best, s) = Some (b, s') \<and> b \<in> set pop"
proof -
  obtain k s' where draw: "Intn lib (length pop) s = (k, s')"
    by (cases "Intn lib (length pop) s")
  with assms(1,2) have "k < length pop"
    by (auto dest: Intn_bound)
  with draw assms(2,3) show ?thesis
    by (simp add: tournament_round_def rand_Intn_def index_at_def)
qed

lemma tournamentSelection_ok:
  fixes lib :: "'s Runtime"
  assumes "Intn_in_range lib" "pop \<noteq> []"
  shows "\<exists>p s'. tournamentSelection lib pop s = Some (p, s') \<and> p \<in> set pop"
proof -
  obtain k s1 where draw: "Intn lib (length pop) s = (k, s1)"
    by (cases "Intn lib (length pop) s")
  with assms have k: "k < length pop"
    by (auto dest: Intn_bound)
  have "\<exists>a'. for_each [1..<3] (tournament_round lib pop) (pop ! k, s1) = Some a' \<and>
          (case a' of (b, s') \<Rightarrow> b \<in> set pop)"
  proof (rule for_each_invariant)
    show "case (pop ! k, s1) of (b, s') \<Rightarrow> b \<in> set pop"
      using k by simp
  next
    fix i and a :: "Individual \<times> 's"
    assume "case a of (b, s') \<Rightarrow> b \<in> set pop"
    then show "\<exists>a'. tournament_round lib pop i a = Some a' \<and> (case a' of (b, s') \<Rightarrow> b \<in> set pop)"
      using tournament_round_ok [OF assms] by (cases a) fastforce
  qed
  then show ?thesis
    using draw k assms(2)
    by (auto simp: tournamentSelection_def rand_Intn_def index_at_def)
qed

lemma length_mutate_fold:
  "length (fst (fold (mutate_step lib cfg) is (g, s))) = length g"
proof (induction "is" arbitrary: g s)
  case Nil
  then show ?case by simp
next
  case (Cons i "is")
  obtain g' s' where st: "mutate_step lib cfg i (g, s) = (g', s')"
    by (cases "mutate_step lib cfg i (g, s)")
  then have "length g' = length g"
    by (auto simp: mutate_step_def split: prod.splits if_splits)
  with Cons [of g' s'] st show ?case by simp
qed

lemma mutate_store_le: "store_le h (fst (mutate lib cfg x (h, s)))"
proof -
  let ?g = "bytes_at h (Genes x)"
  have "length (fst (fold (mutate_step lib cfg) [0..<length ?g] (?g, s))) = length ?g"
    by (rule length_mutate_fold)
  then show ?thesis
    by (simp add: mutate_def Let_def split_beta store_le_update)
qed

lemma uniformCrossover_ok:
  assumes "genes_ok h L p1" "genes_ok h L p2"
  shows "\<exists>c1 c2 h' s'. uniformCrossover lib p1 p2 (h, s) = Some ((c1, c2), h', s') \<and>
           store_le h h' \<and> genes_ok h' L c1 \<and> genes_ok h' L c2"
proof -
  let ?g1 = "bytes_at h (Genes p1)" and ?g2 = "bytes_at h (Genes p2)"
  have len: "length ?g1 = L" "length ?g2 = L"
    using assms by (simp_all add: genes_ok_bytes_at)
  obtain c1 c2 s' where
    run: "for_each [0..<L] (uniform_step lib ?g1 ?g2) (replicate L 0, replicate L 0, s)
            = Some (c1, c2, s')" and
    lens: "length c1 = L" "length c2 = L"
    using uniform_loop [of L ?g2 "replicate L 0" L "replicate L 0" lib ?g1 s] len
    by auto
  have res: "uniformCrossover lib p1 p2 (h, s) =
          Some ((\<lparr>Genes = length h, Fitness = 0\<rparr>, \<lparr>Genes = Suc (length h), Fitness = 0\<rparr>),
                h @ [c1, c2], s')"
    using run len by (simp add: uniformCrossover_def alloc_def Let_def)
  show ?thesis
    unfolding res using lens by (simp add: store_le_append genes_ok_def nth_append)
qed

lemma onepointCrossover_ok:
  assumes "Intn_in_range lib" "1 \<le> L" "genes_ok h L p1" "genes_ok h L p2"
  shows "\<exists>c1 c2 h' s'. onepointCrossover lib p1 p2 (h, s) = Some ((c1, c2), h', s') \<and>
           store_le h h' \<and> genes_ok h' L c1 \<and> genes_ok h' L c2"
proof -
  let ?g1 = "bytes_at h (Genes p1)" and ?g2 = "bytes_at h (Genes p2)"
  have len: "length ?g1 = L" "length ?g2 = L"
    using assms by (simp_all add: genes_ok_bytes_at)
  obtain c s' where draw: "Intn lib L s = (c, s')"
    by (cases "Intn lib L s")
  have c: "c < L"
    using assms(2) Intn_bound [OF assms(1) _ draw] by simp
  have res: "onepointCrossover lib p1 p2 (h, s) =
          Some ((\<lparr>Genes = length h, Fitness = 0\<rparr>, \<lparr>Genes = Suc (length h), Fitness = 0\<rparr>),
                h @ [take c ?g1 @ drop c ?g2, take c ?g2 @ drop c ?g1], s')"
    using len assms(2) draw c
    by (auto simp add: onepointCrossover_def rand_Intn_def alloc_def Let_def copy_bytes_same)
  show ?thesis
    unfolding res using len c by (simp add: store_le_append genes_ok_def nth_append)
qed

lemma crossover_ok:
  assumes "Intn_in_range lib" "1 \<le> L" "genes_ok h L p1" "genes_ok h L p2"
  shows "\<exists>c1 c2 h' s'. crossover lib cfg p1 p2 (h, s) = Some ((c1, c2), h', s') \<and>
           store_le h h' \<and> genes_ok h' L c1 \<and> genes_ok h' L c2"
proof (cases "CrossoverType cfg = ''onepoint''")
  case True
  then show ?thesis
    using onepointCrossover_ok [OF assms, of s] by (simp add: crossover_def)
next
  case False
  then show ?thesis
    using uniformCrossover_ok [OF assms(3,4), of lib s] by (simp add: crossover_def)
qed


lemma genes_ok_Fitness [simp]: "genes_ok h L (x\<lparr>Fitness := f\<rparr>) = genes_ok h L x"
  by (simp add: genes_ok_def)

lemma reproduce_step_ok:
  fixes lib :: "'s Runtime"
  assumes lib: "Intn_in_range lib" and pop: "pop \<noteq> []" and L: "1 \<le> L"
    and okp: "\<forall>x\<in>set pop. genes_ok h L x"
    and okn: "\<forall>x\<in>set np. genes_ok h L x"
    and room: "int (length np) < PopulationSize cfg"
  shows "\<exists>np' h' s'. reproduce_step lib cfg pop (np, h, s) = Some (np', h', s') \<and>
           store_le h h' \<and> (\<forall>x\<in>set np'. genes_ok h' L x) \<and>
           length np < length np' \<and> int (length np') \<le> PopulationSize cfg \<and>
           take (length np) np' = np"
proof -
  obtain p1 s1 where sel1: "tournamentSelection lib pop s = Some (p1, s1)" and p1: "p1 \<in> set pop"
    using tournamentSelection_ok [OF lib pop] by blast
  obtain p2 s2 where sel2: "tournamentSelection lib pop s1 = Some (p2, s2)" and p2: "p2 \<in> set pop"
    using tournamentSelection_ok [OF lib pop] by blast
  obtain u s3 where draw: "Float64 lib s2 = (u, s3)"
    by (cases "Float64 lib s2")
  let ?cross = "if u < CrossoverProb cfg then crossover lib cfg p1 p2 (h, s3)
                else Some ((p1, p2), h, s3)"
  have "\<exists>c1 c2 h4 s4. ?cross = Some ((c1, c2), h4, s4) \<and>
          store_le h h4 \<and> genes_ok h4 L c1 \<and> genes_ok h4 L c2"
  proof (cases "u < CrossoverProb cfg")
    case True
    then show ?thesis
      using crossover_ok [OF lib L, of h p1 p2 cfg s3] okp p1 p2 by simp
  next
    case False
    then show ?thesis
      using okp p1 p2 by (simp add: store_le_refl)
  qed
  then obtain c1 c2 h4 s4 where
    cross: "?cross = Some ((c1, c2), h4, s4)" and
    le4: "store_le h h4" and ok1: "genes_ok h4 L c1" and ok2: "genes_ok h4 L c2"
    by blast
  obtain h5 s5 where m1: "mutate lib cfg c1 (h4, s4) = (h5, s5)"
    by (cases "mutate lib cfg c1 (h4, s4)")
  obtain h6 s6 where m2: "mutate lib cfg c2 (h5, s5) = (h6, s6)"
    by (cases "mutate lib cfg c2 (h5, s5)")
  have le5: "store_le h4 h5"
    using mutate_store_le [of h4 lib cfg c1 s4] m1 by simp
  have le6: "store_le h5 h6"
    using mutate_store_le [of h5 lib cfg c2 s5] m2 by simp
  have le46: "store_le h4 h6"
    using le5 le6 by (rule store_le_trans)
  have le: "store_le h h6"
    using le4 le46 by (rule store_le_trans)
  let ?c1 = "c1\<lparr>Fitness := FitnessFunc cfg (bytes_at h6 (Genes c1))\<rparr>"
  let ?c2 = "c2\<lparr>Fitness := FitnessFunc cfg (bytes_at h6 (Genes c2))\<rparr>"
  let ?np1 = "np @ [?c1]"
  let ?np2 = "if int (length ?np1) < PopulationSize cfg then ?np1 @ [?c2] else ?np1"
  have step: "reproduce_step lib cfg pop (np, h, s) = Some (?np2, h6, s6)"
    using sel1 sel2 draw cross m1 m2
    by (simp add: reproduce_step_def Let_def)
  have "\<forall>x\<in>set ?np2. genes_ok h6 L x"
    using okn ok1 ok2 le le46 by (auto intro: genes_ok_mono)
  moreover have "length np < length ?np2" "int (length ?np2) \<le> PopulationSize cfg"
    "take (length np) ?np2 = np"
    using room by auto
  ultimately show ?thesis
    using step le by blast
qed

lemma reproduce_ok:
  fixes lib :: "'s Runtime"
  assumes lib: "Intn_in_range lib" and pop: "pop \<noteq> []" and L: "1 \<le> L"
  shows "(\<forall>x\<in>set pop. genes_ok h L x) \<Longrightarrow> (\<forall>x\<in>set np. genes_ok h L x) \<Longrightarrow>
         int (length np) \<le> PopulationSize cfg \<Longrightarrow>
         \<exists>np' h' s'. reproduce lib cfg pop (np, h, s) = Some (np', h', s') \<and>
           store_le h h' \<and> (\<forall>x\<in>set np'. genes_ok h' L x) \<and>
           int (length np') = PopulationSize cfg \<and> take (length np) np' = np"
proof (induction "nat (PopulationSize cfg - int (length np))" arbitrary: np h s rule: less_induct)
  case less
  show ?case
  proof (cases "int (length np) < PopulationSize cfg")
    case False
    then have "reproduce lib cfg pop (np, h, s) = Some (np, h, s)"
      by (simp add: reproduce.simps)
    then show ?thesis
      using False less.prems by (simp add: store_le_refl)
  next
    case True
    obtain np1 h1 s1 where
      step: "reproduce_step lib cfg pop (np, h, s) = Some (np1, h1, s1)" and
      le1: "store_le h h1" and ok1: "\<forall>x\<in>set np1. genes_ok h1 L x" and
      len1: "length np < length np1" "int (length np1) \<le> PopulationSize cfg" and
      pre1: "take (length np) np1 = np"
      using reproduce_step_ok [OF lib pop L less.prems(1,2) True, of s] by blast
    have okp1: "\<forall>x\<in>set pop. genes_ok h1 L x"
      using less.prems(1) le1 by (auto intro: genes_ok_mono)
    have "nat (PopulationSize cfg - int (length np1)) < nat (PopulationSize cfg - int (length np))"
      using len1 True by linarith
    from less.hyps [OF this okp1 ok1 len1(2), of s1] obtain np' h' s' where
      run: "reproduce lib cfg pop (np1, h1, s1) = Some (np', h', s')" and
      le': "store_le h1 h'" and ok': "\<forall>x\<in>set np'. genes_ok h' L x" and
      len': "int (length np') = PopulationSize cfg" and pre': "take (length np1) np' = np1"
      by blast
    have "reproduce lib cfg pop (np, h, s) = Some (np', h', s')"
      using True step run by (subst reproduce.simps) simp
    moreover have "store_le h h'"
      using le1 le' by (rule store_le_trans)
    moreover have "take (length np) np' = np"
    proof -
      have "take (length np) np' = take (length np) (take (length np1) np')"
        using len1(1) by (simp add: min_def)
      then show ?thesis using pre' pre1 by simp
    qed
    ultimately show ?thesis
      using ok' len' by blast
  qed
qed

lemma elites_fold: "n \<le> length pop \<Longrightarrow> fold (\<lambda>i newPopulation. newPopulation @ [pop ! i]) [0..<n] [] = take n pop"
  by (induction n) (simp_all add: take_Suc_conv_app_nth)

lemma elites_take: "elites cfg pop = take (nat (ElitismCount cfg)) pop"
  unfolding elites_def by (simp add: elites_fold min_def)


lemma for_each_counted:
  assumes step: "\<And>i k a. P k a \<Longrightarrow> \<exists>a'. body i a = Some a' \<and> P (Suc k) a'"
  shows "P n a \<Longrightarrow> \<exists>a'. for_each is body a = Some a' \<and> P (n + length is) a'"
proof (induction "is" arbitrary: a n)
  case Nil
  then show ?case by simp
next
  case (Cons i "is")
  from step [OF Cons.prems] obtain a' where "body i a = Some a'" "P (Suc n) a'"
    by blast
  with Cons.IH [of "Suc n" a'] show ?case by simp
qed

lemma length_init_fold:
  "length (fst (fold (init_gene_step lib) is (g, s))) = length g"
proof (induction "is" arbitrary: g s)
  case Nil
  then show ?case by simp
next
  case (Cons i "is")
  obtain g' s' where st: "init_gene_step lib i (g, s) = (g', s')"
    by (cases "init_gene_step lib i (g, s)")
  then have "length g' = length g"
    by (auto simp: init_gene_step_def split: prod.splits if_splits)
  with Cons [of g' s'] st show ?case by simp
qed

lemma init_individual_ok:
  assumes "0 \<le> BitsPerGene cfg"
  shows "\<exists>h' s' x. init_individual lib cfg i (h, s, pop) = Some (h', s', pop @ [x]) \<and>
           store_le h h' \<and> genes_ok h' (nat (BitsPerGene cfg)) x \<and>
           Fitness x = FitnessFunc cfg (bytes_at h' (Genes x)) \<and>
           (\<forall>a<length h. bytes_at h' a = bytes_at h a)"
proof -
  let ?L = "nat (BitsPerGene cfg)"
  let ?r = "fold (init_gene_step lib) [0..<?L] (replicate ?L 0, s)"
  have len: "length (fst ?r) = ?L"
    by (simp add: length_init_fold)
  have "init_individual lib cfg i (h, s, pop) =
      Some (h @ [fst ?r], snd ?r, pop @ [\<lparr>Genes = length h, Fitness = FitnessFunc cfg (fst ?r)\<rparr>])"
    using assms
    by (simp add: init_individual_def make_bytes_def alloc_def bytes_at_def Let_def split_beta)
  then show ?thesis
    using len by (simp add: store_le_append genes_ok_def bytes_at_def nth_append)
qed

lemma Initialize_ok:
  fixes lib :: "'s Runtime"
  assumes "0 \<le> PopulationSize (config ga)" "0 \<le> BitsPerGene (config ga)"
  shows "\<exists>h' ga'. Initialize lib (h, ga) = Some (h', ga') \<and> store_le h h' \<and>
           config ga' = config ga \<and> bestFitness ga' = bestFitness ga \<and>
           int (length (population ga')) = PopulationSize (config ga) \<and>
           (\<forall>x\<in>set (population ga'). genes_ok h' (nat (BitsPerGene (config ga))) x) \<and>
           (\<forall>x\<in>set (population ga'). evaluated (config ga) h' x)"
proof -
  let ?cfg = "config ga"
  let ?L = "nat (BitsPerGene ?cfg)"
  let ?P = "\<lambda>k (st :: store \<times> 's \<times> Individual list).
      store_le h (fst st) \<and> length (snd (snd st)) = k \<and>
      (\<forall>x\<in>set (snd (snd st)). genes_ok (fst st) ?L x \<and> evaluated ?cfg (fst st) x)"
  have "\<exists>a'. for_each [0..<nat (PopulationSize ?cfg)] (init_individual lib ?cfg) (h, rng ga, []) = Some a' \<and>
           ?P (0 + length [0..<nat (PopulationSize ?cfg)]) a'"
  proof (rule for_each_counted [where P = ?P])
    show "?P 0 (h, rng ga, [])"
      by (simp add: store_le_refl)
  next
    fix i k and a :: "store \<times> 's \<times> Individual list"
    assume inv: "?P k a"
    obtain h1 s1 pop1 where a: "a = (h1, s1, pop1)"
      by (cases a)
    obtain h2 s2 x where
      run: "init_individual lib ?cfg i (h1, s1, pop1) = Some (h2, s2, pop1 @ [x])" and
      le: "store_le h1 h2" and ok: "genes_ok h2 ?L x" and
      ev: "Fitness x = FitnessFunc ?cfg (bytes_at h2 (Genes x))" and
      same: "\<forall>a<length h1. bytes_at h2 a = bytes_at h1 a"
      using init_individual_ok [OF assms(2), of lib i h1 s1 pop1] by blast
    have "store_le h h2"
      using inv a le by (auto intro: store_le_trans)
    moreover have "\<forall>y\<in>set (pop1 @ [x]). genes_ok h2 ?L y"
      using inv a le ok by (auto intro: genes_ok_mono)
    moreover have "\<forall>y\<in>set (pop1 @ [x]). evaluated ?cfg h2 y"
      using inv a le ok ev same by (auto simp: evaluated_def genes_ok_def store_le_def)
    ultimately show "\<exists>a'. init_individual lib ?cfg i a = Some a' \<and> ?P (Suc k) a'"
      using run inv a by simp
  qed
  then obtain h' s' pop' where
    run: "for_each [0..<nat (PopulationSize ?cfg)] (init_individual lib ?cfg) (h, rng ga, [])
            = Some (h', s', pop')" and
    post: "store_le h h'" "length pop' = nat (PopulationSize ?cfg)"
      "\<forall>x\<in>set pop'. genes_ok h' ?L x" "\<forall>x\<in>set pop'. evaluated ?cfg h' x"
    by auto
  have "Initialize lib (h, ga) = Some (h', ga\<lparr>population := pop', rng := s'\<rparr>)"
    using assms(1) run by (simp add: Initialize_def)
  then show ?thesis
    using post assms(1) by simp
qed

lemma sorted_population:
  assumes "SortSlice_sorts lib"
  shows "set (SortSlice lib by_fitness xs) = set xs"
    and "length (SortSlice lib by_fitness xs) = length xs"
    and "sorted_wrt (\<lambda>a b. Fitness b \<le> Fitness a) (SortSlice lib by_fitness xs)"
proof -
  have m: "mset (SortSlice lib by_fitness xs) = mset xs"
    using assms by (simp add: SortSlice_sorts_def)
  show "set (SortSlice lib by_fitness xs) = set xs"
    using m by (rule mset_eq_setD)
  show "length (SortSlice lib by_fitness xs) = length xs"
    using m by (rule mset_eq_length)
  have "sorted_wrt (\<lambda>a b. \<not> by_fitness b a) (SortSlice lib by_fitness xs)"
    using assms by (simp add: SortSlice_sorts_def)
  then show "sorted_wrt (\<lambda>a b. Fitness b \<le> Fitness a) (SortSlice lib by_fitness xs)"
    by (simp add: by_fitness_def not_less)
qed

lemma sorted_head_max:
  assumes "sorted_wrt (\<lambda>a b. Fitness b \<le> Fitness a) xs" "x \<in> set xs"
  shows "Fitness x \<le> Fitness (xs ! 0)"
  using assms by (cases xs) auto

lemma generation_ok:
  fixes lib :: "'s Runtime"
  assumes lib: "Intn_in_range lib" and srt: "SortSlice_sorts lib"
    and ps: "1 \<le> PopulationSize cfg" and bits: "1 \<le> BitsPerGene cfg"
    and inv: "engine_ok cfg (h, ga)"
  shows "\<exists>h' ga' top. generation lib g (h, ga) = Some (h', ga') \<and> engine_ok cfg (h', ga') \<and>
           top \<in> set (population ga) \<and> (\<forall>x\<in>set (population ga). Fitness x \<le> Fitness top) \<and>
           bestFitness ga' = bestFitness ga @ [Fitness top] \<and>
           (1 \<le> ElitismCount cfg \<longrightarrow> top \<in> set (population ga'))"
proof -
  let ?L = "nat (BitsPerGene cfg)"
  let ?pop = "SortSlice lib by_fitness (population ga)"
  have cfg: "config ga = cfg" and len: "int (length (population ga)) = PopulationSize cfg"
    and ok: "\<forall>x\<in>set (population ga). genes_ok h ?L x"
    using inv by (simp_all add: engine_ok_def)
  note sp = sorted_population [OF srt, of "population ga"]
  have ne: "?pop \<noteq> []"
    using sp(2) len ps by auto
  let ?top = "?pop ! 0"
  have top_in: "?top \<in> set (population ga)"
    using ne sp(1) by (metis length_greater_0_conv nth_mem)
  have top_max: "\<forall>x\<in>set (population ga). Fitness x \<le> Fitness ?top"
    using sorted_head_max [OF sp(3)] sp(1) by blast
  let ?el = "elites cfg ?pop"
  have el: "?el = take (nat (ElitismCount cfg)) ?pop"
    by (rule elites_take)
  have okp: "\<forall>x\<in>set ?pop. genes_ok h ?L x"
    using ok sp(1) by simp
  have oke: "\<forall>x\<in>set ?el. genes_ok h ?L x"
    using okp unfolding el by (meson in_set_takeD)
  have lene: "int (length ?el) \<le> PopulationSize cfg"
    unfolding el using sp(2) len by simp
  have L: "1 \<le> ?L"
    using bits by simp
  obtain np h' s' where
    run: "reproduce lib cfg ?pop (?el, h, rng ga) = Some (np, h', s')" and
    ok': "\<forall>x\<in>set np. genes_ok h' ?L x" and
    len': "int (length np) = PopulationSize cfg" and pre: "take (length ?el) np = ?el"
    using reproduce_ok [OF lib ne L okp oke lene, of "rng ga"] by blast
  let ?ga' = "ga\<lparr>population := np, bestFitness := bestFitness ga @ [Fitness ?top], rng := s'\<rparr>"
  have gen: "generation lib g (h, ga) = Some (h', ?ga')"
    using ne run cfg ps by (simp add: generation_def index_at_def Let_def)
  have "engine_ok cfg (h', ?ga')"
    using cfg ok' len' by (simp add: engine_ok_def)
  moreover have "top \<in> set np" if "1 \<le> ElitismCount cfg" and "top = ?top" for top
  proof -
    have "?el \<noteq> []"
      unfolding el using that(1) ne by simp
    then have "?el ! 0 = ?top"
      unfolding el by simp
    moreover have "?el ! 0 \<in> set ?el"
      using \<open>?el \<noteq> []\<close> by simp
    moreover have "set ?el \<subseteq> set np"
      using pre by (metis set_take_subset)
    ultimately show ?thesis
      using that(2) by auto
  qed
  ultimately show ?thesis
    using gen top_in top_max by auto
qed


lemma generations_ok:
  fixes lib :: "'s Runtime"
  assumes lib: "Intn_in_range lib" and srt: "SortSlice_sorts lib"
    and ps: "1 \<le> PopulationSize cfg" and bits: "1 \<le> BitsPerGene cfg"
    and inv: "engine_ok cfg (h, ga)" and hist: "history_ok cfg ga"
  shows "\<exists>h' ga'. for_each gs (generation lib) (h, ga) = Some (h', ga') \<and>
           engine_ok cfg (h', ga') \<and> history_ok cfg ga' \<and>
           length (bestFitness ga') = length (bestFitness ga) + length gs"
proof -
  let ?P = "\<lambda>k (st :: store \<times> 's GeneticAlgorithm).
      engine_ok cfg st \<and> history_ok cfg (snd st) \<and> length (bestFitness (snd st)) = k"
  have "\<exists>a'. for_each gs (generation lib) (h, ga) = Some a' \<and>
          ?P (length (bestFitness ga) + length gs) a'"
  proof (rule for_each_counted [where P = ?P])
    show "?P (length (bestFitness ga)) (h, ga)"
      using inv hist by simp
  next
    fix g k and a :: "store \<times> 's GeneticAlgorithm"
    assume P: "?P k a"
    obtain h1 ga1 where a: "a = (h1, ga1)"
      by (cases a)
    have inv1: "engine_ok cfg (h1, ga1)" and hist1: "history_ok cfg ga1"
      and len1: "length (bestFitness ga1) = k"
      using P a by simp_all
    obtain h2 ga2 top where
      gen: "generation lib g (h1, ga1) = Some (h2, ga2)" and
      inv2: "engine_ok cfg (h2, ga2)" and
      top: "top \<in> set (population ga1)" "\<forall>x\<in>set (population ga1). Fitness x \<le> Fitness top" and
      best: "bestFitness ga2 = bestFitness ga1 @ [Fitness top]" and
      kept: "1 \<le> ElitismCount cfg \<longrightarrow> top \<in> set (population ga2)"
      using generation_ok [OF lib srt ps bits inv1, of g] by blast
    have "history_ok cfg ga2"
      unfolding history_ok_def
    proof (intro impI conjI ballI)
      assume e: "1 \<le> ElitismCount cfg"
      have below: "\<forall>v\<in>set (bestFitness ga1). v \<le> Fitness top"
        using hist1 e top(2) unfolding history_ok_def by (meson order_trans)
      show "sorted (bestFitness ga2)"
        using hist1 e below unfolding best history_ok_def by (simp add: sorted_append)
      fix v assume "v \<in> set (bestFitness ga2)"
      then have "v \<le> Fitness top"
        using below unfolding best by auto
      then show "\<exists>x\<in>set (population ga2). v \<le> Fitness x"
        using kept e by blast
    qed
    then show "\<exists>a'. generation lib g a = Some a' \<and> ?P (Suc k) a'"
      using gen inv2 best len1 a by simp
  qed
  then show ?thesis by auto
qed

lemma Run_completes:
  fixes lib :: "'s Runtime"
  assumes lib: "Intn_in_range lib" and srt: "SortSlice_sorts lib"
    and ps: "1 \<le> PopulationSize cfg" and bits: "1 \<le> BitsPerGene cfg"
  shows "\<exists>best hist h' ga'.
           Run lib (h, NewGeneticAlgorithm lib cfg) = Some ((best, hist), h', ga') \<and>
           length hist = nat (MaxGenerations cfg) \<and>
           (1 \<le> ElitismCount cfg \<longrightarrow> sorted hist) \<and>
           best \<in> set (population ga') \<and>
           (\<forall>x\<in>set (population ga'). Fitness x \<le> Fitness best)"
proof -
  let ?ga = "NewGeneticAlgorithm lib cfg"
  have c: "config ?ga = cfg" and b: "bestFitness ?ga = []"
    by (simp_all add: NewGeneticAlgorithm_def)
  obtain h0 ga0 where
    init: "Initialize lib (h, ?ga) = Some (h0, ga0)" and
    c0: "config ga0 = cfg" and b0: "bestFitness ga0 = []" and
    len0: "int (length (population ga0)) = PopulationSize cfg" and
    ok0: "\<forall>x\<in>set (population ga0). genes_ok h0 (nat (BitsPerGene cfg)) x"
    using Initialize_ok [of ?ga lib h] ps bits unfolding c b by auto
  have inv0: "engine_ok cfg (h0, ga0)"
    using c0 len0 ok0 by (simp add: engine_ok_def)
  have hist0: "history_ok cfg ga0"
    using b0 by (simp add: history_ok_def)
  obtain h1 ga1 where
    loop: "for_each [0..<nat (MaxGenerations cfg)] (generation lib) (h0, ga0) = Some (h1, ga1)" and
    inv1: "engine_ok cfg (h1, ga1)" and hist1: "history_ok cfg ga1" and
    len1: "length (bestFitness ga1) = nat (MaxGenerations cfg)"
    using generations_ok [OF lib srt ps bits inv0 hist0, of "[0..<nat (MaxGenerations cfg)]"] b0
    by auto
  let ?pop = "SortSlice lib by_fitness (population ga1)"
  note sp = sorted_population [OF srt, of "population ga1"]
  have ne: "?pop \<noteq> []"
    using sp(2) inv1 ps by (auto simp: engine_ok_def)
  have run: "Run lib (h, ?ga) = Some ((?pop ! 0, bestFitness ga1), h1, ga1\<lparr>population := ?pop\<rparr>)"
    using init loop ne c by (simp add: Run_def index_at_def Let_def)
  have "?pop ! 0 \<in> set ?pop"
    using ne by simp
  moreover have "\<forall>x\<in>set ?pop. Fitness x \<le> Fitness (?pop ! 0)"
    using sorted_head_max [OF sp(3)] by blast
  ultimately show ?thesis
    using run len1 hist1 by (simp add: history_ok_def)
qed

section \<open>Properties of a run\<close>

lemma small_config_valid: "valid_config small_config"
  by (simp add: valid_config_def small_config_def)

lemma generation_appends:
  "generation lib g st = Some st' \<Longrightarrow> \<exists>v. bestFitness (snd st') = bestFitness (snd st) @ [v]"
  by (cases st) (auto simp: generation_def Let_def split: bind_splits if_splits)

lemma Run_no_generations:
  assumes "MaxGenerations (config ga) \<le> 0"
    and "Run lib (h, ga) = Some ((best, hist), h', ga')"
  shows "\<exists>ga0. Initialize lib (h, ga) = Some (h', ga0) \<and> hist = bestFitness ga0 \<and>
           population ga' = SortSlice lib by_fitness (population ga0)"
  using assms by (auto simp: Run_def Let_def split: bind_splits)

lemma SortSlice_empty: "SortSlice_sorts lib \<Longrightarrow> SortSlice lib by_fitness [] = []"
  using sorted_population(2) [of lib "[]"] by simp

lemma generation_empty:
  "SortSlice_sorts lib \<Longrightarrow> population ga = [] \<Longrightarrow> generation lib g (h, ga) = None"
  by (simp add: generation_def SortSlice_empty index_at_def)

lemma Run_empty_population:
  assumes srt: "SortSlice_sorts lib" and ps: "PopulationSize (config ga) < 1"
  shows "Run lib (h, ga) = None"
proof (cases "PopulationSize (config ga) < 0")
  case True
  then have "Initialize lib (h, ga) = None"
    by (simp add: Initialize_def)
  then show ?thesis
    by (simp add: Run_def)
next
  case False
  with ps have z: "PopulationSize (config ga) = 0"
    by simp
  let ?ga0 = "ga\<lparr>population := [], rng := rng ga\<rparr>"
  have init: "Initialize lib (h, ga) = Some (h, ?ga0)"
    using z by (simp add: Initialize_def)
  show ?thesis
  proof (cases "[0..<nat (MaxGenerations (config ga))]")
    case Nil
    then show ?thesis
      using init srt by (simp add: Run_def SortSlice_empty index_at_def)
  next
    case (Cons g gs)
    have "generation lib g (h, ?ga0) = None"
      using srt by (rule generation_empty) simp
    then show ?thesis
      using init Cons by (simp add: Run_def)
  qed
qed

lemma Run_negative_bits:
  assumes ps: "1 \<le> PopulationSize (config ga)" and bits: "BitsPerGene (config ga) < 0"
  shows "Run lib (h, ga) = None"
proof -
  have "[0..<nat (PopulationSize (config ga))] = 0 # [1..<nat (PopulationSize (config ga))]"
    using ps by (simp add: upt_conv_Cons)
  moreover have "init_individual lib (config ga) 0 (h, rng ga, []) = None"
    using bits by (simp add: init_individual_def make_bytes_def)
  ultimately have "Initialize lib (h, ga) = None"
    using ps by (simp add: Initialize_def)
  then show ?thesis
    by (simp add: Run_def)
qed

text \<open>
  Claim C2. For every valid configuration (\<open>PopulationSize \<ge> 1\<close>, \<open>MaxGenerations \<ge> 0\<close>,
  \<open>BitsPerGene \<ge> 1\<close>, probabilities in \<open>[0, 1]\<close>) the run of a fresh engine completes and the
  convergence history it returns has length exactly \<open>MaxGenerations\<close>; every completed
  generation appends exactly one entry.
\<close>

theorem history_length:
  assumes "Intn_in_range lib" and "SortSlice_sorts lib" and "valid_config cfg"
  shows "(\<exists>best hist h' ga'.
            Run lib (h, NewGeneticAlgorithm lib cfg) = Some ((best, hist), h', ga') \<and>
            int (length hist) = MaxGenerations cfg) \<and>
         (\<forall>g st st'. generation lib g st = Some st' \<longrightarrow>
            length (bestFitness (snd st')) = length (bestFitness (snd st)) + 1)"
proof
  have ps: "1 \<le> PopulationSize cfg" and bits: "1 \<le> BitsPerGene cfg"
    and mg: "0 \<le> MaxGenerations cfg"
    using assms(3) by (simp_all add: valid_config_def)
  obtain best hist h' ga' where
    "Run lib (h, NewGeneticAlgorithm lib cfg) = Some ((best, hist), h', ga')"
    "length hist = nat (MaxGenerations cfg)"
    using Run_completes [OF assms(1,2) ps bits, of h] by blast
  then show "\<exists>best hist h' ga'.
            Run lib (h, NewGeneticAlgorithm lib cfg) = Some ((best, hist), h', ga') \<and>
            int (length hist) = MaxGenerations cfg"
    using mg by auto
next
  show "\<forall>g st st'. generation lib g st = Some st' \<longrightarrow>
            length (bestFitness (snd st')) = length (bestFitness (snd st)) + 1"
    using generation_appends by fastforce
qed

theorem history_length_witness:
  "Intn_in_range counter_lib \<and> SortSlice_sorts counter_lib \<and> valid_config small_config \<and>
   (\<exists>best hist h' ga'.
      Run counter_lib ([], NewGeneticAlgorithm counter_lib small_config)
        = Some ((best, hist), h', ga') \<and>
      int (length hist) = 2)"
proof -
  have mg: "MaxGenerations small_config = 2"
    by (simp add: small_config_def)
  show ?thesis
    using history_length [OF counter_lib_Intn counter_lib_sorts small_config_valid, of "[]"]
      counter_lib_Intn counter_lib_sorts small_config_valid
    unfolding mg by blast
qed

text \<open>
  Claim C1. For every valid configuration with \<open>ElitismCount \<ge> 1\<close> the run completes and
  the best-fitness values recorded in the returned history are non-decreasing:
  \<open>history[i] \<le> history[i+1]\<close> for every \<open>i < MaxGenerations - 1\<close>. The recorded values are
  the \<^verbatim>\<open>Fitness\<close> fields; an elite keeps its field even when a child that shares its gene
  array is mutated (see \<open>recorded_fitness_can_be_stale\<close> below).
\<close>

theorem history_non_decreasing:
  assumes "Intn_in_range lib" and "SortSlice_sorts lib" and "valid_config cfg"
    and "1 \<le> ElitismCount cfg"
  shows "\<exists>best hist h' ga'.
           Run lib (h, NewGeneticAlgorithm lib cfg) = Some ((best, hist), h', ga') \<and>
           (\<forall>i. int i < MaxGenerations cfg - 1 \<longrightarrow> hist ! i \<le> hist ! (i + 1))"
proof -
  have ps: "1 \<le> PopulationSize cfg" and bits: "1 \<le> BitsPerGene cfg"
    using assms(3) by (simp_all add: valid_config_def)
  obtain best hist h' ga' where
    run: "Run lib (h, NewGeneticAlgorithm lib cfg) = Some ((best, hist), h', ga')" and
    len: "length hist = nat (MaxGenerations cfg)" and
    srt: "sorted hist"
    using Run_completes [OF assms(1,2) ps bits, of h] assms(4) by blast
  have "hist ! i \<le> hist ! (i + 1)" if "int i < MaxGenerations cfg - 1" for i
  proof -
    have "i + 1 < length hist"
      using that len by linarith
    then show ?thesis
      using srt by (simp add: sorted_nth_mono)
  qed
  then show ?thesis
    using run by blast
qed

theorem history_non_decreasing_witness:
  "Intn_in_range counter_lib \<and> SortSlice_sorts counter_lib \<and> valid_config small_config \<and>
   1 \<le> ElitismCount small_config \<and>
   (\<exists>best hist h' ga'.
      Run counter_lib ([], NewGeneticAlgorithm counter_lib small_config)
        = Some ((best, hist), h', ga') \<and>
      hist ! 0 \<le> hist ! 1)"
proof -
  have e: "1 \<le> ElitismCount small_config" and mg: "MaxGenerations small_config = 2"
    by (simp_all add: small_config_def)
  obtain best hist h' ga' where
    "Run counter_lib ([], NewGeneticAlgorithm counter_lib small_config)
       = Some ((best, hist), h', ga')"
    "\<forall>i. int i < 2 - 1 \<longrightarrow> hist ! i \<le> hist ! (i + 1)"
    using history_non_decreasing
      [OF counter_lib_Intn counter_lib_sorts small_config_valid e, of "[]"]
    unfolding mg by blast
  moreover from this(2) have "hist ! 0 \<le> hist ! (0 + 1)"
    by (rule allE [where x = 0]) simp
  then have "hist ! 0 \<le> hist ! 1"
    by simp
  ultimately show ?thesis
    using counter_lib_Intn counter_lib_sorts small_config_valid e by blast
qed

text \<open>
  What the run does return, for every configuration with \<open>PopulationSize \<ge> 1\<close> and
  \<open>BitsPerGene \<ge> 1\<close>: an individual of the final population whose \<^verbatim>\<open>Fitness\<close> field is
  maximal over the fields of that population, with a history of \<open>MaxGenerations\<close> entries
  (none for a negative value). Without a generation the final population is the initial
  one and every field is the evaluator's value on the genes.
\<close>

lemma Run_result:
  assumes "Intn_in_range lib" and "SortSlice_sorts lib"
    and ps: "1 \<le> PopulationSize cfg" and bits: "1 \<le> BitsPerGene cfg"
  shows "\<exists>best hist h' ga'.
           Run lib (h, NewGeneticAlgorithm lib cfg) = Some ((best, hist), h', ga') \<and>
           length hist = nat (MaxGenerations cfg) \<and>
           best \<in> set (population ga') \<and>
           (\<forall>x\<in>set (population ga'). Fitness x \<le> Fitness best) \<and>
           (MaxGenerations cfg \<le> 0 \<longrightarrow>
              (\<exists>ga0. Initialize lib (h, NewGeneticAlgorithm lib cfg) = Some (h', ga0) \<and>
                     mset (population ga') = mset (population ga0)) \<and>
              (\<forall>x\<in>set (population ga'). evaluated cfg h' x))"
proof -
  let ?ga = "NewGeneticAlgorithm lib cfg"
  have c: "config ?ga = cfg" and b: "bestFitness ?ga = []"
    by (simp_all add: NewGeneticAlgorithm_def)
  obtain best hist h' ga' where
    run: "Run lib (h, ?ga) = Some ((best, hist), h', ga')" and
    len: "length hist = nat (MaxGenerations cfg)" and
    best: "best \<in> set (population ga')" "\<forall>x\<in>set (population ga'). Fitness x \<le> Fitness best"
    using Run_completes [OF assms(1,2) ps bits, of h] by blast
  have "(\<exists>ga0. Initialize lib (h, ?ga) = Some (h', ga0) \<and>
               mset (population ga') = mset (population ga0)) \<and>
        (\<forall>x\<in>set (population ga'). evaluated cfg h' x)" if mg0: "MaxGenerations cfg \<le> 0"
  proof -
    obtain ga0 where
      init: "Initialize lib (h, ?ga) = Some (h', ga0)" and
      pop: "population ga' = SortSlice lib by_fitness (population ga0)"
    proof -
      have "MaxGenerations (config ?ga) \<le> 0"
        using mg0 c by simp
      from Run_no_generations [OF this run] show ?thesis
        using that by blast
    qed
    have ev: "\<forall>x\<in>set (population ga0). evaluated cfg h' x"
      using Initialize_ok [of ?ga lib h] ps bits init unfolding c b by auto
    moreover have m: "mset (population ga') = mset (population ga0)"
      unfolding pop using assms(2) by (simp add: SortSlice_sorts_def)
    moreover have "set (population ga') = set (population ga0)"
      using m by (rule mset_eq_setD)
    ultimately show ?thesis
      using init by simp
  qed
  then show ?thesis
    using run len best by blast
qed

text \<open>
  Claim C5 says that for every valid configuration the run returns an individual whose
  fitness is maximal over the final population. Fitness is the evaluator's value on the
  genes, and the run below breaks the claim: the configuration is valid, the runtime meets
  the library's contract (\<open>stable_lib_Intn\<close>, \<open>stable_lib_Float64\<close>, \<open>stable_lib_sorts\<close>), and
  the individual returned has genes \<open>[0]\<close>, which the evaluator maps to 0, while the final
  population holds an individual with genes \<open>[1]\<close>, which it maps to 1. The field of the
  individual returned still says 1: the elite was appended as a copy that shares the gene
  array of its parent, a child that passed through without crossover shared it too, and
  \<open>mutate\<close> wrote into it after the field had been set.
\<close>

theorem Run_returns_individual_that_is_not_best:
  "valid_config stale_config \<and>
   map_option
     (\<lambda>((best, history), h, ga).
        (best, bytes_at h (Genes best), map (\<lambda>x. (x, bytes_at h (Genes x))) (population ga)))
     (Run stable_lib ([], NewGeneticAlgorithm stable_lib stale_config))
   = Some (\<lparr>Genes = 1, Fitness = 1\<rparr>, [0],
           [(\<lparr>Genes = 1, Fitness = 1\<rparr>, [0]), (\<lparr>Genes = 2, Fitness = 1\<rparr>, [1])]) \<and>
   FitnessFunc stale_config [0] = 0 \<and> FitnessFunc stale_config [1] = 1"
  by code_simp

text \<open>
  After a generation the \<^verbatim>\<open>Fitness\<close> field of an individual need not be the evaluator's
  value on its genes: a child that passes through without crossover shares the gene array
  of its parent, and of the elite copied from that parent, and is mutated in place. Here
  the individual returned has field 1 and genes \<open>[0]\<close>, which \<open>count_ones\<close> maps to 0.
\<close>

lemma recorded_fitness_can_be_stale:
  "map_option (\<lambda>((best, hist), h', ga'). (best, hist, bytes_at h' (Genes best), population ga'))
     (Run counter_lib ([], NewGeneticAlgorithm counter_lib
        (small_config\<lparr>CrossoverProb := 0, MutationProb := 1 / 2, BitsPerGene := 1,
                       MaxGenerations := 1, Seed := 0\<rparr>)))
   = Some (\<lparr>Genes = 2, Fitness = 1\<rparr>, [1], [0],
           [\<lparr>Genes = 2, Fitness = 1\<rparr>, \<lparr>Genes = 2, Fitness = 0\<rparr>, \<lparr>Genes = 2, Fitness = 0\<rparr>])"
  by code_simp

text \<open>
  Claim C4, as stated, fails: the engine has no validation. A negative \<open>MaxGenerations\<close>,
  a \<open>CrossoverProb\<close> above 1 and an unknown \<open>CrossoverType\<close> are accepted, and the run
  returns an individual and a history.
\<close>

theorem Run_accepts_invalid_config:
  "MaxGenerations (small_config\<lparr>MaxGenerations := - 1\<rparr>) < 0 \<and>
   map_option fst
     (Run counter_lib ([], NewGeneticAlgorithm counter_lib (small_config\<lparr>MaxGenerations := - 1\<rparr>)))
     = Some (\<lparr>Genes = 2, Fitness = 1\<rparr>, []) \<and>
   1 < CrossoverProb (small_config\<lparr>CrossoverProb := 2, CrossoverType := ''twopoint''\<rparr>) \<and>
   map_option fst
     (Run counter_lib ([], NewGeneticAlgorithm counter_lib
        (small_config\<lparr>CrossoverProb := 2, CrossoverType := ''twopoint''\<rparr>)))
     = Some (\<lparr>Genes = 6, Fitness = 1\<rparr>, [1, 1])"
  by code_simp

text \<open>
  Claim C4, amended. The run does not validate its configuration. With
  \<open>PopulationSize < 1\<close> or \<open>BitsPerGene < 0\<close> it ends in a run-time panic, so no individual
  and no history are returned. With \<open>PopulationSize \<ge> 1\<close> and \<open>BitsPerGene \<ge> 1\<close> it completes
  for every \<open>MaxGenerations\<close>, \<open>CrossoverProb\<close>, \<open>MutationProb\<close> and \<open>CrossoverType\<close>: it returns
  a history of \<open>MaxGenerations\<close> entries, none for a negative value, and an individual of the
  final population whose \<^verbatim>\<open>Fitness\<close> field is maximal there. For \<open>MaxGenerations \<le> 0\<close> the
  final population is the population that \<open>Initialize\<close> builds and every field is the
  evaluator's value on the genes, so the individual returned is a best individual of the
  initial population.
\<close>

theorem Run_unvalidated:
  assumes "Intn_in_range lib" and "SortSlice_sorts lib"
  shows "(PopulationSize cfg < 1 \<longrightarrow> Run lib (h, NewGeneticAlgorithm lib cfg) = None) \<and>
         (BitsPerGene cfg < 0 \<longrightarrow> Run lib (h, NewGeneticAlgorithm lib cfg) = None) \<and>
         (1 \<le> PopulationSize cfg \<and> 1 \<le> BitsPerGene cfg \<longrightarrow>
            (\<exists>best hist h' ga'.
               Run lib (h, NewGeneticAlgorithm lib cfg) = Some ((best, hist), h', ga') \<and>
               length hist = nat (MaxGenerations cfg) \<and>
               best \<in> set (population ga') \<and>
               (\<forall>x\<in>set (population ga'). Fitness x \<le> Fitness best) \<and>
               (MaxGenerations cfg \<le> 0 \<longrightarrow>
                  (\<exists>ga0. Initialize lib (h, NewGeneticAlgorithm lib cfg) = Some (h', ga0) \<and>
                         mset (population ga') = mset (population ga0)) \<and>
                  (\<forall>x\<in>set (population ga'). evaluated cfg h' x))))"
proof (intro conjI impI)
  let ?ga = "NewGeneticAlgorithm lib cfg"
  have c: "config ?ga = cfg"
    by (simp add: NewGeneticAlgorithm_def)
  show "Run lib (h, ?ga) = None" if "PopulationSize cfg < 1"
    using Run_empty_population [OF assms(2), of ?ga h] that c by simp
  show "Run lib (h, ?ga) = None" if "BitsPerGene cfg < 0"
  proof (cases "PopulationSize cfg < 1")
    case True
    then show ?thesis
      using Run_empty_population [OF assms(2), of ?ga h] c by simp
  next
    case False
    then show ?thesis
      using Run_negative_bits [of ?ga lib h] that c by simp
  qed
  show "\<exists>best hist h' ga'.
          Run lib (h, ?ga) = Some ((best, hist), h', ga') \<and>
          length hist = nat (MaxGenerations cfg) \<and>
          best \<in> set (population ga') \<and>
          (\<forall>x\<in>set (population ga'). Fitness x \<le> Fitness best) \<and>
          (MaxGenerations cfg \<le> 0 \<longrightarrow>
             (\<exists>ga0. Initialize lib (h, ?ga) = Some (h', ga0) \<and>
                    mset (population ga') = mset (population ga0)) \<and>
             (\<forall>x\<in>set (population ga'). evaluated cfg h' x))"
    if "1 \<le> PopulationSize cfg \<and> 1 \<le> BitsPerGene cfg"
    using Run_result [OF assms, of cfg h] that by blast
qed

theorem Run_unvalidated_witness:
  "Intn_in_range counter_lib \<and> SortSlice_sorts counter_lib \<and>
   Run counter_lib ([], NewGeneticAlgorithm counter_lib (small_config\<lparr>PopulationSize := 0\<rparr>)) = None \<and>
   Run counter_lib ([], NewGeneticAlgorithm counter_lib (small_config\<lparr>BitsPerGene := - 1\<rparr>)) = None \<and>
   (\<exists>best hist h' ga' ga0.
      Run counter_lib ([], NewGeneticAlgorithm counter_lib (small_config\<lparr>MaxGenerations := - 1\<rparr>))
        = Some ((best, hist), h', ga') \<and>
      hist = [] \<and>
      Initialize counter_lib ([], NewGeneticAlgorithm counter_lib (small_config\<lparr>MaxGenerations := - 1\<rparr>))
        = Some (h', ga0) \<and>
      best \<in> set (population ga0) \<and>
      Fitness best = count_ones (bytes_at h' (Genes best)))"
proof -
  let ?neg = "small_config\<lparr>MaxGenerations := - 1\<rparr>"
  have none1: "Run counter_lib ([], NewGeneticAlgorithm counter_lib (small_config\<lparr>PopulationSize := 0\<rparr>)) = None"
    using Run_unvalidated [OF counter_lib_Intn counter_lib_sorts,
        of "small_config\<lparr>PopulationSize := 0\<rparr>" "[]"]
    by (simp add: small_config_def)
  have none2: "Run counter_lib ([], NewGeneticAlgorithm counter_lib (small_config\<lparr>BitsPerGene := - 1\<rparr>)) = None"
    using Run_unvalidated [OF counter_lib_Intn counter_lib_sorts,
        of "small_config\<lparr>BitsPerGene := - 1\<rparr>" "[]"]
    by (simp add: small_config_def)
  have ok: "1 \<le> PopulationSize ?neg \<and> 1 \<le> BitsPerGene ?neg" and mg: "MaxGenerations ?neg \<le> 0"
    and f: "FitnessFunc ?neg = count_ones"
    by (simp_all add: small_config_def)
  obtain best hist h' ga' ga0 where
    run: "Run counter_lib ([], NewGeneticAlgorithm counter_lib ?neg) = Some ((best, hist), h', ga')" and
    len: "length hist = nat (MaxGenerations ?neg)" and
    best: "best \<in> set (population ga')" and
    init: "Initialize counter_lib ([], NewGeneticAlgorithm counter_lib ?neg) = Some (h', ga0)" and
    same: "mset (population ga') = mset (population ga0)" and
    ev: "\<forall>x\<in>set (population ga'). evaluated ?neg h' x"
    using Run_unvalidated [OF counter_lib_Intn counter_lib_sorts, of ?neg "[]"] ok mg
    by blast
  have "hist = []"
    using len mg by simp
  moreover have "best \<in> set (population ga0)"
    using best mset_eq_setD [OF same] by simp
  moreover have "Fitness best = count_ones (bytes_at h' (Genes best))"
    using ev best f by (simp add: evaluated_def)
  ultimately show ?thesis
    using run init none1 none2 counter_lib_Intn counter_lib_sorts by blast
qed

section \<open>The crossover type is only compared with one name\<close>

lemma crossover_other_type:
  "t \<noteq> ''onepoint'' \<Longrightarrow> CrossoverType c \<noteq> ''onepoint'' \<Longrightarrow>
   crossover lib (c\<lparr>CrossoverType := t\<rparr>) p1 p2 st = crossover lib c p1 p2 st"
  by (simp add: crossover_def)

lemma mutate_other_type: "mutate lib (c\<lparr>CrossoverType := t\<rparr>) x st = mutate lib c x st"
proof -
  have "mutate_step lib (c\<lparr>CrossoverType := t\<rparr>) = mutate_step lib c"
    by (simp add: fun_eq_iff mutate_step_def)
  then show ?thesis
    by (simp add: mutate_def)
qed

lemma reproduce_step_other_type:
  assumes "t \<noteq> ''onepoint''" "CrossoverType c \<noteq> ''onepoint''"
  shows "reproduce_step lib (c\<lparr>CrossoverType := t\<rparr>) pop st = reproduce_step lib c pop st"
  by (cases st)
    (simp add: reproduce_step_def crossover_other_type [OF assms] mutate_other_type cong: if_cong)

lemma reproduce_step_grows:
  "reproduce_step lib c pop st = Some st' \<Longrightarrow> length (fst st) < length (fst st')"
  by (auto simp: reproduce_step_def Let_def split: prod.splits if_splits bind_splits)

lemma reproduce_other_type:
  assumes "t \<noteq> ''onepoint''" "CrossoverType c \<noteq> ''onepoint''"
  shows "reproduce lib (c\<lparr>CrossoverType := t\<rparr>) pop st = reproduce lib c pop st"
proof (induction "nat (PopulationSize c - int (length (fst st)))" arbitrary: st rule: less_induct)
  case less
  show ?case
  proof (cases "int (length (fst st)) < PopulationSize c")
    case False
    then show ?thesis
      by (simp add: reproduce.simps)
  next
    case True
    show ?thesis
    proof (cases "reproduce_step lib c pop st")
      case None
      then show ?thesis
        using True
        by (simp add: reproduce.simps [of _ _ _ st] reproduce_step_other_type [OF assms])
    next
      case (Some st')
      then have "length (fst st) < length (fst st')"
        by (rule reproduce_step_grows)
      then have "nat (PopulationSize c - int (length (fst st')))
          < nat (PopulationSize c - int (length (fst st)))"
        using True by linarith
      then have "reproduce lib (c\<lparr>CrossoverType := t\<rparr>) pop st' = reproduce lib c pop st'"
        by (rule less.hyps)
      then show ?thesis
        using True Some
        by (simp add: reproduce.simps [of _ _ _ st] reproduce_step_other_type [OF assms])
    qed
  qed
qed

lemma init_individual_other_type:
  "init_individual lib (c\<lparr>CrossoverType := t\<rparr>) = init_individual lib c"
  by (simp add: fun_eq_iff init_individual_def)

lemma Initialize_other_type:
  "Initialize lib (h, ga\<lparr>config := (config ga)\<lparr>CrossoverType := t\<rparr>\<rparr>) =
     map_option (\<lambda>(h', ga'). (h', ga'\<lparr>config := (config ga')\<lparr>CrossoverType := t\<rparr>\<rparr>))
       (Initialize lib (h, ga))"
  by (auto simp: Initialize_def init_individual_other_type split: bind_splits)

lemma Initialize_config:
  "Initialize lib (h, ga) = Some (h', ga') \<Longrightarrow> config ga' = config ga"
  by (auto simp: Initialize_def split: bind_splits if_splits)

lemma generation_config:
  "generation lib g (h, ga) = Some (h', ga') \<Longrightarrow> config ga' = config ga"
  by (auto simp: generation_def Let_def split: bind_splits if_splits)

lemma generation_other_type:
  assumes "t \<noteq> ''onepoint''" "CrossoverType (config ga) \<noteq> ''onepoint''"
  shows "generation lib g (h, ga\<lparr>config := (config ga)\<lparr>CrossoverType := t\<rparr>\<rparr>) =
     map_option (\<lambda>(h', ga'). (h', ga'\<lparr>config := (config ga')\<lparr>CrossoverType := t\<rparr>\<rparr>))
       (generation lib g (h, ga))"
  by (auto simp: generation_def Let_def elites_def reproduce_other_type [OF assms]
        split: bind_splits)

lemma generations_other_type:
  assumes "t \<noteq> ''onepoint''"
  shows "CrossoverType (config ga) \<noteq> ''onepoint'' \<Longrightarrow>
     for_each gs (generation lib) (h, ga\<lparr>config := (config ga)\<lparr>CrossoverType := t\<rparr>\<rparr>) =
     map_option (\<lambda>(h', ga'). (h', ga'\<lparr>config := (config ga')\<lparr>CrossoverType := t\<rparr>\<rparr>))
       (for_each gs (generation lib) (h, ga))"
proof (induction gs arbitrary: h ga)
  case Nil
  then show ?case by simp
next
  case (Cons g gs)
  show ?case
  proof (cases "generation lib g (h, ga)")
    case None
    then show ?thesis
      using generation_other_type [OF assms Cons.prems, where lib = lib and g = g and h = h] by simp
  next
    case (Some st')
    obtain h' ga' where st': "st' = (h', ga')"
      by (cases st')
    have "config ga' = config ga"
      using Some st' by (auto dest: generation_config)
    then have "CrossoverType (config ga') \<noteq> ''onepoint''"
      using Cons.prems by simp
    from Cons.IH [OF this, where h = h'] show ?thesis
      using generation_other_type [OF assms Cons.prems, where lib = lib and g = g and h = h] Some st' by simp
  qed
qed

lemma Run_other_type:
  assumes "t \<noteq> ''onepoint''" "CrossoverType (config ga) \<noteq> ''onepoint''"
  shows "Run lib (h, ga\<lparr>config := (config ga)\<lparr>CrossoverType := t\<rparr>\<rparr>) =
     map_option (\<lambda>(r, h', ga'). (r, h', ga'\<lparr>config := (config ga')\<lparr>CrossoverType := t\<rparr>\<rparr>))
       (Run lib (h, ga))"
proof (cases "Initialize lib (h, ga)")
  case None
  then show ?thesis
    using Initialize_other_type [where lib = lib and h = h and ga = ga and t = t] by (simp add: Run_def)
next
  case (Some st0)
  obtain h0 ga0 where st0: "st0 = (h0, ga0)"
    by (cases st0)
  have c0: "config ga0 = config ga"
    using Some st0 by (auto dest: Initialize_config)
  then have "CrossoverType (config ga0) \<noteq> ''onepoint''"
    using assms(2) by simp
  note loop = generations_other_type [OF assms(1) this,
      where gs = "[0..<nat (MaxGenerations (config ga))]" and lib = lib and h = h0]
  show ?thesis
    using Initialize_other_type [where lib = lib and h = h and ga = ga and t = t] Some st0 loop
    by (auto simp: Run_def Let_def split: bind_splits)
qed

text \<open>
  Claim C10. For every configuration whose \<open>CrossoverType\<close> is not \<^verbatim>\<open>"onepoint"\<close> (the empty
  string, a misspelling, or \<^verbatim>\<open>"uniform"\<close> itself) the engine performs uniform crossover:
  \<open>crossover\<close> is \<open>uniformCrossover\<close> on every pair of parents and every state. The whole
  run is the run of the same configuration with \<open>CrossoverType = "uniform"\<close>: the same panic
  or the same returned individual, history, store, population and generator state. The
  two engines differ only in the configuration they hold.
\<close>

theorem unknown_CrossoverType_is_uniform:
  assumes "t \<noteq> ''onepoint''"
  shows "(\<forall>parent1 parent2 st.
            crossover lib (cfg\<lparr>CrossoverType := t\<rparr>) parent1 parent2 st
              = uniformCrossover lib parent1 parent2 st) \<and>
         Run lib (h, NewGeneticAlgorithm lib (cfg\<lparr>CrossoverType := t\<rparr>)) =
           map_option (\<lambda>(r, h', ga'). (r, h', ga'\<lparr>config := (config ga')\<lparr>CrossoverType := t\<rparr>\<rparr>))
             (Run lib (h, NewGeneticAlgorithm lib (cfg\<lparr>CrossoverType := ''uniform''\<rparr>)))"
proof
  show "\<forall>parent1 parent2 st.
            crossover lib (cfg\<lparr>CrossoverType := t\<rparr>) parent1 parent2 st
              = uniformCrossover lib parent1 parent2 st"
    using assms by (simp add: crossover_def)
next
  let ?ga = "NewGeneticAlgorithm lib (cfg\<lparr>CrossoverType := ''uniform''\<rparr>)"
  have "NewGeneticAlgorithm lib (cfg\<lparr>CrossoverType := t\<rparr>)
      = ?ga\<lparr>config := (config ?ga)\<lparr>CrossoverType := t\<rparr>\<rparr>"
    by (simp add: NewGeneticAlgorithm_def)
  moreover have "CrossoverType (config ?ga) \<noteq> ''onepoint''"
    by (simp add: NewGeneticAlgorithm_def)
  ultimately show "Run lib (h, NewGeneticAlgorithm lib (cfg\<lparr>CrossoverType := t\<rparr>)) =
           map_option (\<lambda>(r, h', ga'). (r, h', ga'\<lparr>config := (config ga')\<lparr>CrossoverType := t\<rparr>\<rparr>))
             (Run lib (h, NewGeneticAlgorithm lib (cfg\<lparr>CrossoverType := ''uniform''\<rparr>)))"
    using Run_other_type [OF assms, where ga = ?ga and lib = lib and h = h] by simp
qed

theorem unknown_CrossoverType_is_uniform_witness:
  "''twopoint'' \<noteq> ''onepoint'' \<and>
   crossover counter_lib (small_config\<lparr>CrossoverType := ''twopoint''\<rparr>)
       demo_parent1 demo_parent2 (demo_store, 0)
     = uniformCrossover counter_lib demo_parent1 demo_parent2 (demo_store, 0) \<and>
   uniformCrossover counter_lib demo_parent1 demo_parent2 (demo_store, 0)
     = Some ((\<lparr>Genes = 2, Fitness = 0\<rparr>, \<lparr>Genes = 3, Fitness = 0\<rparr>),
             [[1, 0, 1], [0, 1, 1], [1, 1, 1], [0, 0, 1]], 3) \<and>
   map_option fst
     (Run counter_lib ([], NewGeneticAlgorithm counter_lib (small_config\<lparr>CrossoverType := ''twopoint''\<rparr>)))
   = map_option fst
     (Run counter_lib ([], NewGeneticAlgorithm counter_lib (small_config\<lparr>CrossoverType := ''uniform''\<rparr>)))"
proof -
  have t: "''twopoint'' \<noteq> ''onepoint''"
    by simp
  note inst = unknown_CrossoverType_is_uniform [OF t, of counter_lib small_config "[]"]
  have "crossover counter_lib (small_config\<lparr>CrossoverType := ''twopoint''\<rparr>)
       demo_parent1 demo_parent2 (demo_store, 0)
     = uniformCrossover counter_lib demo_parent1 demo_parent2 (demo_store, 0)"
    using inst by blast
  moreover have "uniformCrossover counter_lib demo_parent1 demo_parent2 (demo_store, 0)
     = Some ((\<lparr>Genes = 2, Fitness = 0\<rparr>, \<lparr>Genes = 3, Fitness = 0\<rparr>),
             [[1, 0, 1], [0, 1, 1], [1, 1, 1], [0, 0, 1]], 3)"
    by code_simp
  moreover have "map_option fst
     (Run counter_lib ([], NewGeneticAlgorithm counter_lib (small_config\<lparr>CrossoverType := ''twopoint''\<rparr>)))
   = map_option fst
     (Run counter_lib ([], NewGeneticAlgorithm counter_lib (small_config\<lparr>CrossoverType := ''uniform''\<rparr>)))"
    using inst by (simp add: option.map_comp comp_def case_prod_beta)
  ultimately show ?thesis
    using t by blast
qed

section \<open>A run does not depend on the store it starts in\<close>

lemma Fitness_reloc [simp]: "Fitness (reloc n1 n2 x) = Fitness x"
  by (simp add: reloc_def)

lemma Genes_reloc [simp]: "Genes (reloc n1 n2 x) = Genes x - n1 + n2"
  by (simp add: reloc_def)

lemma reloc_Fitness_update: "reloc n1 n2 (x\<lparr>Fitness := f\<rparr>) = (reloc n1 n2 x)\<lparr>Fitness := f\<rparr>"
  by (simp add: reloc_def)

lemma same_arrays_length: "same_arrays n1 n2 h1 h2 \<Longrightarrow> length h1 - n1 + n2 = length h2"
proof -
  assume a: "same_arrays n1 n2 h1 h2"
  then have "length (drop n1 h1) = length (drop n2 h2)"
    by (simp add: same_arrays_def)
  then show ?thesis
    using a by (simp add: same_arrays_def)
qed

lemma bytes_at_reloc:
  assumes "same_arrays n1 n2 h1 h2" "in_run n1 h1 x"
  shows "bytes_at h2 (Genes (reloc n1 n2 x)) = bytes_at h1 (Genes x)"
proof -
  let ?a = "Genes x"
  have a: "n1 \<le> ?a" "?a < length h1"
    using assms(2) by (simp_all add: in_run_def)
  have len: "length h1 - n1 + n2 = length h2"
    using assms(1) by (rule same_arrays_length)
  have d: "drop n1 h1 = drop n2 h2" and n: "n1 \<le> length h1" "n2 \<le> length h2"
    using assms(1) by (simp_all add: same_arrays_def)
  have "h1 ! ?a = drop n1 h1 ! (?a - n1)"
    using a n by simp
  also have "\<dots> = drop n2 h2 ! (?a - n1)"
    by (simp add: d)
  also have "\<dots> = h2 ! (?a - n1 + n2)"
    using n by (simp add: add.commute)
  finally have eq: "h1 ! ?a = h2 ! (?a - n1 + n2)" .
  have "?a - n1 + n2 < length h2"
    using a len by linarith
  then show ?thesis
    using a eq by (simp add: bytes_at_def)
qed

lemma same_arrays_refl: "same_arrays (length h1) (length h2) h1 h2"
  by (simp add: same_arrays_def)

lemma same_arrays_append:
  "same_arrays n1 n2 h1 h2 \<Longrightarrow> same_arrays n1 n2 (h1 @ xs) (h2 @ xs)"
  by (simp add: same_arrays_def)

lemma same_arrays_update:
  assumes "same_arrays n1 n2 h1 h2" "in_run n1 h1 x"
  shows "same_arrays n1 n2 (h1[Genes x := g]) (h2[Genes (reloc n1 n2 x) := g])"
proof -
  have "drop n1 (h1[Genes x := g]) = (drop n1 h1)[Genes x - n1 := g]"
    using assms(2) by (simp add: in_run_def drop_update_swap)
  moreover have "drop n2 (h2[Genes x - n1 + n2 := g]) = (drop n2 h2)[Genes x - n1 := g]"
    by (simp add: drop_update_swap)
  ultimately show ?thesis
    using assms(1) by (simp add: same_arrays_def)
qed

lemma in_run_mono: "in_run n h x \<Longrightarrow> length h \<le> length h' \<Longrightarrow> in_run n h' x"
  by (simp add: in_run_def)

lemma in_run_Fitness [simp]: "in_run n h (x\<lparr>Fitness := f\<rparr>) = in_run n h x"
  by (simp add: in_run_def)

lemma for_each_rel:
  assumes "\<And>i a b. R a b \<Longrightarrow> rel_option R (f i a) (g i b)"
  shows "R a b \<Longrightarrow> rel_option R (for_each is f a) (for_each is g b)"
proof (induction "is" arbitrary: a b)
  case Nil
  then show ?case by simp
next
  case (Cons i "is")
  from assms [OF Cons.prems, of i] show ?case
  proof (cases rule: option.rel_cases)
    case None
    then show ?thesis by simp
  next
    case (Some a' b')
    with Cons.IH [of a' b'] show ?thesis by simp
  qed
qed

lemma for_each_map:
  assumes "\<And>i a. g i (m a) = map_option m (f i a)"
  shows "for_each is g (m a) = map_option m (for_each is f a)"
proof (induction "is" arbitrary: a)
  case Nil
  then show ?case by simp
next
  case (Cons i "is")
  then show ?case
    by (cases "f i a") (simp_all add: assms)
qed

lemma for_each_preserves:
  assumes "\<And>i a a'. P a \<Longrightarrow> f i a = Some a' \<Longrightarrow> P a'"
  shows "P a \<Longrightarrow> for_each is f a = Some a' \<Longrightarrow> P a'"
proof (induction "is" arbitrary: a)
  case Nil
  then show ?case by simp
next
  case (Cons i "is")
  then show ?case
    by (auto split: bind_splits dest: assms)
qed

lemma tournament_round_map:
  assumes "\<And>x. Fitness (r x) = Fitness x"
  shows "tournament_round lib (map r pop) i (apfst r a) = map_option (apfst r) (tournament_round lib pop i a)"
  by (cases a) (simp add: tournament_round_def rand_Intn_def index_at_def assms split_beta)

lemma tournamentSelection_map:
  assumes "\<And>x. Fitness (r x) = Fitness x"
  shows "tournamentSelection lib (map r pop) s = map_option (apfst r) (tournamentSelection lib pop s)"
proof -
  have loop: "for_each is (tournament_round lib (map r pop)) (apfst r a)
      = map_option (apfst r) (for_each is (tournament_round lib pop) a)" for "is" a
    by (rule for_each_map) (rule tournament_round_map [OF assms])
  show ?thesis
    using loop [of _ "(x, s')" for x s']
    by (simp add: tournamentSelection_def rand_Intn_def index_at_def split_beta)
qed

lemma tournament_round_member:
  "tournament_round lib pop i a = Some a' \<Longrightarrow> fst a \<in> set pop \<Longrightarrow> fst a' \<in> set pop"
  by (cases a) (auto simp: tournament_round_def index_at_def split: bind_splits if_splits)

lemma tournamentSelection_member:
  assumes "tournamentSelection lib pop s = Some (p, s')"
  shows "p \<in> set pop"
proof -
  from assms obtain k s1 where
    k: "k < length pop" and
    loop: "for_each [1..<3] (tournament_round lib pop) (pop ! k, s1) = Some (p, s')"
    by (auto simp: tournamentSelection_def index_at_def split: bind_splits if_splits)
  have "fst (p, s') \<in> set pop"
  proof (rule for_each_preserves [where P = "\<lambda>a. fst a \<in> set pop", OF _ _ loop])
    show "fst (pop ! k, s1) \<in> set pop"
      using k by simp
  qed (rule tournament_round_member)
  then show ?thesis by simp
qed


lemma crossover_shape:
  "\<exists>F. \<forall>h p1 p2 s.
     crossover lib cfg p1 p2 (h, s) =
       map_option (\<lambda>(c1, c2, s').
           ((\<lparr>Genes = length h, Fitness = 0\<rparr>, \<lparr>Genes = Suc (length h), Fitness = 0\<rparr>),
            h @ [c1, c2], s'))
         (F (bytes_at h (Genes p1)) (bytes_at h (Genes p2)) s)"
proof (cases "CrossoverType cfg = ''onepoint''")
  case True
  let ?F = "\<lambda>g1 g2 s.
      if length g1 = 0 then None
      else if fst (Intn lib (length g1) s) > length g2 then None
      else let point = fst (Intn lib (length g1) s) in
        Some (copy_bytes (take point (replicate (length g1) 0)) (take point g1) @
                copy_bytes (drop point (replicate (length g1) 0)) (drop point g2),
              copy_bytes (take point (replicate (length g2) 0)) (take point g2) @
                copy_bytes (drop point (replicate (length g2) 0)) (drop point g1),
              snd (Intn lib (length g1) s))"
  have *: "crossover lib cfg p1 p2 (h, s) =
       map_option (\<lambda>(c1, c2, s').
           ((\<lparr>Genes = length h, Fitness = 0\<rparr>, \<lparr>Genes = Suc (length h), Fitness = 0\<rparr>),
            h @ [c1, c2], s'))
         (?F (bytes_at h (Genes p1)) (bytes_at h (Genes p2)) s)" for h p1 p2 s
    using True
    by (simp add: crossover_def onepointCrossover_def rand_Intn_def alloc_def Let_def split_beta)
  show ?thesis
    by (rule exI [where x = ?F]) (intro allI, rule *)
next
  case False
  let ?F = "\<lambda>g1 g2 s.
      for_each [0..<length g1] (uniform_step lib g1 g2)
        (replicate (length g1) 0, replicate (length g2) 0, s)"
  have *: "crossover lib cfg p1 p2 (h, s) =
       map_option (\<lambda>(c1, c2, s').
           ((\<lparr>Genes = length h, Fitness = 0\<rparr>, \<lparr>Genes = Suc (length h), Fitness = 0\<rparr>),
            h @ [c1, c2], s'))
         (?F (bytes_at h (Genes p1)) (bytes_at h (Genes p2)) s)" for h p1 p2 s
    using False
    by (cases "?F (bytes_at h (Genes p1)) (bytes_at h (Genes p2)) s")
      (auto simp add: crossover_def uniformCrossover_def alloc_def Let_def)
  show ?thesis
    by (rule exI [where x = ?F]) (intro allI, rule *)
qed

lemma crossover_rel:
  assumes sim: "same_arrays n1 n2 h1 h2" and p1: "in_run n1 h1 p1" and p2: "in_run n1 h1 p2"
  shows "rel_option
           (\<lambda>(cs, h1', s1) (ds, h2', s2).
              ds = (reloc n1 n2 (fst cs), reloc n1 n2 (snd cs)) \<and> s2 = s1 \<and>
              same_arrays n1 n2 h1' h2' \<and> length h1 \<le> length h1' \<and>
              in_run n1 h1' (fst cs) \<and> in_run n1 h1' (snd cs))
           (crossover lib cfg p1 p2 (h1, s))
           (crossover lib cfg (reloc n1 n2 p1) (reloc n1 n2 p2) (h2, s))"
proof -
  obtain F where F: "\<And>h p1 p2 s.
     crossover lib cfg p1 p2 (h, s) =
       map_option (\<lambda>(c1, c2, s').
           ((\<lparr>Genes = length h, Fitness = 0\<rparr>, \<lparr>Genes = Suc (length h), Fitness = 0\<rparr>),
            h @ [c1, c2], s'))
         (F (bytes_at h (Genes p1)) (bytes_at h (Genes p2)) s)"
    using crossover_shape [of lib cfg] by blast
  have len: "length h1 - n1 + n2 = length h2"
    using sim by (rule same_arrays_length)
  have n1: "n1 \<le> length h1"
    using sim by (simp add: same_arrays_def)
  have b: "bytes_at h2 (Genes (reloc n1 n2 p1)) = bytes_at h1 (Genes p1)"
    "bytes_at h2 (Genes (reloc n1 n2 p2)) = bytes_at h1 (Genes p2)"
    using sim p1 p2 by (simp_all add: bytes_at_reloc del: Genes_reloc)
  show ?thesis
  proof (cases "F (bytes_at h1 (Genes p1)) (bytes_at h1 (Genes p2)) s")
    case None
    then show ?thesis
      unfolding F b by simp
  next
    case (Some res)
    obtain c1 c2 s' where res: "res = (c1, c2, s')"
      by (cases res)
    have "same_arrays n1 n2 (h1 @ [c1, c2]) (h2 @ [c1, c2])"
      using sim by (rule same_arrays_append)
    moreover have "Suc (length h1) - n1 + n2 = Suc (length h2)"
      using len n1 by linarith
    ultimately show ?thesis
      unfolding F b using Some res len n1 by (simp add: reloc_def in_run_def)
  qed
qed

lemma mutate_unfold:
  "mutate lib cfg x (h, s) =
     (h[Genes x := fst (fold (mutate_step lib cfg) [0..<length (bytes_at h (Genes x))]
                          (bytes_at h (Genes x), s))],
      snd (fold (mutate_step lib cfg) [0..<length (bytes_at h (Genes x))]
             (bytes_at h (Genes x), s)))"
  by (simp add: mutate_def Let_def split_beta)

lemma mutate_rel:
  assumes sim: "same_arrays n1 n2 h1 h2" and x: "in_run n1 h1 x"
  shows "same_arrays n1 n2 (fst (mutate lib cfg x (h1, s)))
           (fst (mutate lib cfg (reloc n1 n2 x) (h2, s)))"
    and "snd (mutate lib cfg (reloc n1 n2 x) (h2, s)) = snd (mutate lib cfg x (h1, s))"
    and "length (fst (mutate lib cfg x (h1, s))) = length h1"
proof -
  have b: "bytes_at h2 (Genes (reloc n1 n2 x)) = bytes_at h1 (Genes x)"
    using sim x by (rule bytes_at_reloc)
  show "same_arrays n1 n2 (fst (mutate lib cfg x (h1, s)))
           (fst (mutate lib cfg (reloc n1 n2 x) (h2, s)))"
    unfolding mutate_unfold b fst_conv using sim x by (rule same_arrays_update)
  show "snd (mutate lib cfg (reloc n1 n2 x) (h2, s)) = snd (mutate lib cfg x (h1, s))"
    unfolding mutate_unfold b by simp
  show "length (fst (mutate lib cfg x (h1, s))) = length h1"
    unfolding mutate_unfold by simp
qed


lemma reproduce_step_rel:
  fixes lib :: "'s Runtime"
  assumes sim: "same_arrays n1 n2 h1 h2"
    and okp: "\<forall>x\<in>set pop. in_run n1 h1 x" and okn: "\<forall>x\<in>set np. in_run n1 h1 x"
  shows "rel_option
           (\<lambda>(np1, h1', s1) (np2, h2', s2).
              np2 = map (reloc n1 n2) np1 \<and> s2 = s1 \<and> same_arrays n1 n2 h1' h2' \<and>
              length h1 \<le> length h1' \<and> (\<forall>x\<in>set np1. in_run n1 h1' x))
           (reproduce_step lib cfg pop (np, h1, s))
           (reproduce_step lib cfg (map (reloc n1 n2) pop) (map (reloc n1 n2) np, h2, s))"
proof -
  let ?r = "reloc n1 n2"
  note sel = tournamentSelection_map [of ?r lib pop, OF Fitness_reloc]
  show ?thesis
  proof (cases "tournamentSelection lib pop s")
    case None
    then show ?thesis
      by (simp add: reproduce_step_def sel)
  next
    case (Some a1)
    obtain p1 s1 where a1: "a1 = (p1, s1)"
      by (cases a1)
    have sel1: "tournamentSelection lib pop s = Some (p1, s1)"
      using Some a1 by simp
    have p1: "in_run n1 h1 p1"
      using tournamentSelection_member [OF sel1] okp by blast
    show ?thesis
    proof (cases "tournamentSelection lib pop s1")
      case None
      then show ?thesis
        using sel1 by (simp add: reproduce_step_def sel)
    next
      case (Some a2)
      obtain p2 s2 where a2: "a2 = (p2, s2)"
        by (cases a2)
      have sel2: "tournamentSelection lib pop s1 = Some (p2, s2)"
        using Some a2 by simp
      have p2: "in_run n1 h1 p2"
        using tournamentSelection_member [OF sel2] okp by blast
      obtain u s3 where draw: "Float64 lib s2 = (u, s3)"
        by (cases "Float64 lib s2")
      let ?cross1 = "if u < CrossoverProb cfg then crossover lib cfg p1 p2 (h1, s3)
                     else Some ((p1, p2), h1, s3)"
      let ?cross2 = "if u < CrossoverProb cfg then crossover lib cfg (?r p1) (?r p2) (h2, s3)
                     else Some ((?r p1, ?r p2), h2, s3)"
      have cr: "rel_option
           (\<lambda>(cs, h1', s1) (ds, h2', s2).
              ds = (?r (fst cs), ?r (snd cs)) \<and> s2 = s1 \<and>
              same_arrays n1 n2 h1' h2' \<and> length h1 \<le> length h1' \<and>
              in_run n1 h1' (fst cs) \<and> in_run n1 h1' (snd cs))
           ?cross1 ?cross2"
        using crossover_rel [OF sim p1 p2, of lib cfg s3] sim p1 p2 by simp
      have unfold1: "reproduce_step lib cfg pop (np, h1, s) =
          ?cross1 \<bind> (\<lambda>((child1, child2), st4).
             let st5 = mutate lib cfg child1 st4;
                 (h6, s6) = mutate lib cfg child2 st5;
                 child1' = child1\<lparr>Fitness := FitnessFunc cfg (bytes_at h6 (Genes child1))\<rparr>;
                 child2' = child2\<lparr>Fitness := FitnessFunc cfg (bytes_at h6 (Genes child2))\<rparr>;
                 np1 = np @ [child1'];
                 np2 = (if int (length np1) < PopulationSize cfg then np1 @ [child2'] else np1)
             in Some (np2, h6, s6))"
        using sel1 sel2 draw by (simp add: reproduce_step_def)
      have unfold2: "reproduce_step lib cfg (map ?r pop) (map ?r np, h2, s) =
          ?cross2 \<bind> (\<lambda>((child1, child2), st4).
             let st5 = mutate lib cfg child1 st4;
                 (h6, s6) = mutate lib cfg child2 st5;
                 child1' = child1\<lparr>Fitness := FitnessFunc cfg (bytes_at h6 (Genes child1))\<rparr>;
                 child2' = child2\<lparr>Fitness := FitnessFunc cfg (bytes_at h6 (Genes child2))\<rparr>;
                 np1 = map ?r np @ [child1'];
                 np2 = (if int (length np1) < PopulationSize cfg then np1 @ [child2'] else np1)
             in Some (np2, h6, s6))"
        using sel1 sel2 draw by (simp add: reproduce_step_def sel)
      from cr show ?thesis
      proof (cases rule: option.rel_cases)
        case None
        then show ?thesis
          unfolding unfold1 unfold2 by simp
      next
        case (Some x y)
        obtain c1 c2 h4 s4 where x: "x = ((c1, c2), h4, s4)"
          by (cases x) auto
        obtain h4' where y: "y = ((?r c1, ?r c2), h4', s4)" and
          sim4: "same_arrays n1 n2 h4 h4'" and len4: "length h1 \<le> length h4" and
          c1: "in_run n1 h4 c1" and c2: "in_run n1 h4 c2"
          using Some(3) x by (cases y) auto
        obtain h5 s5 where m1: "mutate lib cfg c1 (h4, s4) = (h5, s5)"
          by (cases "mutate lib cfg c1 (h4, s4)")
        obtain h5' where m1': "mutate lib cfg (?r c1) (h4', s4) = (h5', s5)"
          using mutate_rel(2) [OF sim4 c1, of lib cfg s4] m1
          by (cases "mutate lib cfg (?r c1) (h4', s4)") simp
        have sim5: "same_arrays n1 n2 h5 h5'" and len5: "length h5 = length h4"
          using mutate_rel(1,3) [OF sim4 c1, of lib cfg s4] m1 m1' by simp_all
        have c2': "in_run n1 h5 c2"
          using c2 len5 by (simp add: in_run_def)
        obtain h6 s6 where m2: "mutate lib cfg c2 (h5, s5) = (h6, s6)"
          by (cases "mutate lib cfg c2 (h5, s5)")
        obtain h6' where m2': "mutate lib cfg (?r c2) (h5', s5) = (h6', s6)"
          using mutate_rel(2) [OF sim5 c2', of lib cfg s5] m2
          by (cases "mutate lib cfg (?r c2) (h5', s5)") simp
        have sim6: "same_arrays n1 n2 h6 h6'" and len6: "length h6 = length h5"
          using mutate_rel(1,3) [OF sim5 c2', of lib cfg s5] m2 m2' by simp_all
        have in6: "in_run n1 h6 c1" "in_run n1 h6 c2"
          using c1 c2 len5 len6 by (simp_all add: in_run_def)
        have b: "bytes_at h6' (Genes (?r c1)) = bytes_at h6 (Genes c1)"
          "bytes_at h6' (Genes (?r c2)) = bytes_at h6 (Genes c2)"
          using sim6 in6 by (simp_all add: bytes_at_reloc del: Genes_reloc)
        have old: "\<forall>x\<in>set np. in_run n1 h6 x"
          using okn len4 len5 len6 by (auto simp: in_run_def)
        show ?thesis
          unfolding unfold1 unfold2 Some(1,2) x y
          using m1 m1' m2 m2' b sim6 in6 old len4 len5 len6
          by (simp add: Let_def reloc_Fitness_update del: Genes_reloc)
      qed
    qed
  qed
qed


lemma reproduce_rel:
  fixes lib :: "'s Runtime"
  shows "same_arrays n1 n2 h1 h2 \<Longrightarrow> \<forall>x\<in>set pop. in_run n1 h1 x \<Longrightarrow>
         \<forall>x\<in>set np. in_run n1 h1 x \<Longrightarrow>
         rel_option
           (\<lambda>(np1, h1', s1) (np2, h2', s2).
              np2 = map (reloc n1 n2) np1 \<and> s2 = s1 \<and> same_arrays n1 n2 h1' h2' \<and>
              length h1 \<le> length h1' \<and> (\<forall>x\<in>set np1. in_run n1 h1' x))
           (reproduce lib cfg pop (np, h1, s))
           (reproduce lib cfg (map (reloc n1 n2) pop) (map (reloc n1 n2) np, h2, s))"
proof (induction "nat (PopulationSize cfg - int (length np))" arbitrary: np h1 h2 s rule: less_induct)
  case less
  let ?r = "reloc n1 n2"
  show ?case
  proof (cases "int (length np) < PopulationSize cfg")
    case False
    then show ?thesis
      using less.prems by (simp add: reproduce.simps)
  next
    case True
    have step: "rel_option
           (\<lambda>(np1, h1', s1) (np2, h2', s2).
              np2 = map ?r np1 \<and> s2 = s1 \<and> same_arrays n1 n2 h1' h2' \<and>
              length h1 \<le> length h1' \<and> (\<forall>x\<in>set np1. in_run n1 h1' x))
           (reproduce_step lib cfg pop (np, h1, s))
           (reproduce_step lib cfg (map ?r pop) (map ?r np, h2, s))"
      using less.prems by (rule reproduce_step_rel)
    from step show ?thesis
    proof (cases rule: option.rel_cases)
      case None
      then show ?thesis
        using True
        by (simp add: reproduce.simps [of _ _ _ "(np, h1, s)"]
              reproduce.simps [of _ _ _ "(map ?r np, h2, s)"])
    next
      case (Some x y)
      obtain np' h1' s' where x: "x = (np', h1', s')"
        by (cases x)
      obtain h2' where y: "y = (map ?r np', h2', s')" and
        sim': "same_arrays n1 n2 h1' h2'" and len': "length h1 \<le> length h1'" and
        ok': "\<forall>x\<in>set np'. in_run n1 h1' x"
        using Some(3) x by (cases y) auto
      have "length np < length np'"
        using reproduce_step_grows [of lib cfg pop "(np, h1, s)" x] Some(1) x by simp
      then have m: "nat (PopulationSize cfg - int (length np'))
          < nat (PopulationSize cfg - int (length np))"
        using True by linarith
      have okp': "\<forall>x\<in>set pop. in_run n1 h1' x"
        using less.prems(2) len' by (auto simp: in_run_def)
      have rec: "rel_option
           (\<lambda>(np1, h1'', s1) (np2, h2'', s2).
              np2 = map ?r np1 \<and> s2 = s1 \<and> same_arrays n1 n2 h1'' h2'' \<and>
              length h1' \<le> length h1'' \<and> (\<forall>x\<in>set np1. in_run n1 h1'' x))
           (reproduce lib cfg pop (np', h1', s'))
           (reproduce lib cfg (map ?r pop) (map ?r np', h2', s'))"
        using less.hyps [OF m sim' okp' ok'] .
      have e1: "reproduce lib cfg pop (np, h1, s) = reproduce lib cfg pop (np', h1', s')"
        using True Some(1) x by (simp add: reproduce.simps [of _ _ _ "(np, h1, s)"])
      have e2: "reproduce lib cfg (map ?r pop) (map ?r np, h2, s)
          = reproduce lib cfg (map ?r pop) (map ?r np', h2', s')"
        using True Some(2) y by (simp add: reproduce.simps [of _ _ _ "(map ?r np, h2, s)"])
      from rec show ?thesis
        unfolding e1 e2
        by (rule option.rel_mono_strong) (use len' in auto)
    qed
  qed
qed

lemma init_individual_unfold:
  "init_individual lib cfg i (h, s, pop) =
     (if BitsPerGene cfg < 0 then None
      else let r = fold (init_gene_step lib) [0..<nat (BitsPerGene cfg)]
                     (replicate (nat (BitsPerGene cfg)) 0, s)
           in Some (h @ [fst r], snd r, pop @ [\<lparr>Genes = length h, Fitness = FitnessFunc cfg (fst r)\<rparr>]))"
  by (simp add: init_individual_def make_bytes_def alloc_def bytes_at_def Let_def split_beta)

lemma init_individual_rel:
  assumes "same_arrays n1 n2 h1 h2" "\<forall>x\<in>set pop. in_run n1 h1 x"
  shows "rel_option
           (\<lambda>(h1', s1, pop1) (h2', s2, pop2).
              same_arrays n1 n2 h1' h2' \<and> s2 = s1 \<and> pop2 = map (reloc n1 n2) pop1 \<and>
              (\<forall>x\<in>set pop1. in_run n1 h1' x))
           (init_individual lib cfg i (h1, s, pop))
           (init_individual lib cfg i (h2, s, map (reloc n1 n2) pop))"
proof -
  have "length h1 - n1 + n2 = length h2" and "n1 \<le> length h1"
    using assms(1) by (simp_all add: same_arrays_length) (simp add: same_arrays_def)
  then show ?thesis
    using assms same_arrays_append [OF assms(1)]
    by (auto simp: init_individual_unfold Let_def reloc_def in_run_def)
qed

lemma Initialize_rel:
  fixes lib :: "'s Runtime"
  shows "rel_option (relocated (length h1) (length h2))
           (Initialize lib (h1, ga)) (Initialize lib (h2, ga))"
proof -
  let ?n1 = "length h1" and ?n2 = "length h2"
  let ?R = "\<lambda>(h1', s1 :: 's, pop1) (h2', s2 :: 's, pop2).
              same_arrays ?n1 ?n2 h1' h2' \<and> s2 = s1 \<and> pop2 = map (reloc ?n1 ?n2) pop1 \<and>
              (\<forall>x\<in>set pop1. in_run ?n1 h1' x)"
  have loop: "rel_option ?R
      (for_each is (init_individual lib (config ga)) (h1, rng ga, []))
      (for_each is (init_individual lib (config ga)) (h2, rng ga, []))" for "is"
  proof (rule for_each_rel [where R = ?R])
    show "?R (h1, rng ga, []) (h2, rng ga, [])"
      by (simp add: same_arrays_refl)
  next
    fix i and a b :: "store \<times> 's \<times> Individual list"
    assume "?R a b"
    then show "rel_option ?R (init_individual lib (config ga) i a) (init_individual lib (config ga) i b)"
      using init_individual_rel [of ?n1 ?n2 "fst a" "fst b" "snd (snd a)" lib "config ga" i "fst (snd a)"]
      by (cases a; cases b) auto
  qed
  show ?thesis
  proof (cases "PopulationSize (config ga) < 0")
    case True
    then show ?thesis
      by (simp add: Initialize_def)
  next
    case False
    from loop [of "[0..<nat (PopulationSize (config ga))]"] show ?thesis
    proof (cases rule: option.rel_cases)
      case None
      then show ?thesis
        using False by (simp add: Initialize_def)
    next
      case (Some x y)
      then show ?thesis
        using False by (cases x; cases y) (auto simp: Initialize_def relocated_def)
    qed
  qed
qed


lemma elites_map: "elites cfg (map f pop) = map f (elites cfg pop)"
  by (simp add: elites_take take_map)

lemma generation_rel:
  fixes lib :: "'s Runtime"
  assumes srt: "SortSlice_sorts lib" and nat: "SortSlice_natural lib"
    and rel: "relocated n1 n2 st1 st2"
  shows "rel_option (relocated n1 n2) (generation lib g st1) (generation lib g st2)"
proof -
  let ?r = "reloc n1 n2"
  obtain h1 ga where st1: "st1 = (h1, ga)"
    by (cases st1)
  obtain h2 where st2: "st2 = (h2, ga\<lparr>population := map ?r (population ga)\<rparr>)"
    and sim: "same_arrays n1 n2 h1 h2" and ok: "\<forall>x\<in>set (population ga). in_run n1 h1 x"
    using rel st1 by (cases st2) (auto simp: relocated_def)
  let ?pop = "SortSlice lib by_fitness (population ga)"
  have sorted2: "SortSlice lib by_fitness (map ?r (population ga)) = map ?r ?pop"
    using nat unfolding SortSlice_natural_def by (simp del: Genes_reloc)
  have okp: "\<forall>x\<in>set ?pop. in_run n1 h1 x"
    using ok sorted_population(1) [OF srt, of "population ga"] by simp
  have oke: "\<forall>x\<in>set (elites (config ga) ?pop). in_run n1 h1 x"
    using okp unfolding elites_take by (meson in_set_takeD)
  note rep = reproduce_rel [OF sim okp oke, of lib "config ga" "rng ga"]
  show ?thesis
  proof (cases "?pop = [] \<or> PopulationSize (config ga) < 0")
    case True
    then show ?thesis
      unfolding st1 st2 by (auto simp: generation_def sorted2 index_at_def Let_def)
  next
    case False
    from rep show ?thesis
    proof (cases rule: option.rel_cases)
      case None
      then show ?thesis
        unfolding st1 st2 using False
        by (simp add: generation_def sorted2 index_at_def Let_def elites_map)
    next
      case (Some x y)
      then show ?thesis
        unfolding st1 st2 using False
        by (cases x; cases y)
          (auto simp: generation_def sorted2 index_at_def Let_def elites_map relocated_def
             simp del: Genes_reloc)
    qed
  qed
qed

lemma genotype_reloc:
  "same_arrays n1 n2 h1 h2 \<Longrightarrow> in_run n1 h1 x \<Longrightarrow> genotype h2 (reloc n1 n2 x) = genotype h1 x"
  by (simp add: genotype_def bytes_at_reloc del: Genes_reloc)

lemma Run_rel:
  fixes lib :: "'s Runtime"
  assumes srt: "SortSlice_sorts lib" and nat: "SortSlice_natural lib"
  shows "outcome (Run lib (h1, ga)) = outcome (Run lib (h2, ga))"
proof -
  let ?n1 = "length h1" and ?n2 = "length h2"
  let ?r = "reloc ?n1 ?n2"
  let ?gs = "[0..<nat (MaxGenerations (config ga))]"
  from Initialize_rel [of h1 h2 lib ga] show ?thesis
  proof (cases rule: option.rel_cases)
    case None
    then show ?thesis
      by (simp add: Run_def outcome_def)
  next
    case (Some st1 st2)
    have "rel_option (relocated ?n1 ?n2)
        (for_each ?gs (generation lib) st1) (for_each ?gs (generation lib) st2)"
      using generation_rel [OF srt nat] Some(3)
      by (rule for_each_rel [where R = "relocated ?n1 ?n2"])
    then show ?thesis
    proof (cases rule: option.rel_cases)
      case None
      then show ?thesis
        using Some(1,2) by (simp add: Run_def outcome_def)
    next
      case (Some st1' st2')
      obtain k1 ga1 where st1': "st1' = (k1, ga1)"
        by (cases st1')
      obtain k2 where st2': "st2' = (k2, ga1\<lparr>population := map ?r (population ga1)\<rparr>)"
        and sim: "same_arrays ?n1 ?n2 k1 k2" and ok: "\<forall>x\<in>set (population ga1). in_run ?n1 k1 x"
        using Some(3) st1' by (cases st2') (auto simp: relocated_def)
      let ?pop = "SortSlice lib by_fitness (population ga1)"
      have sorted2: "SortSlice lib by_fitness (map ?r (population ga1)) = map ?r ?pop"
        using nat unfolding SortSlice_natural_def by (simp del: Genes_reloc)
      have okp: "\<forall>x\<in>set ?pop. in_run ?n1 k1 x"
        using ok sorted_population(1) [OF srt, of "population ga1"] by simp
      have run1: "Run lib (h1, ga) =
          (if ?pop = [] then None
           else Some ((?pop ! 0, bestFitness ga1), k1, ga1\<lparr>population := ?pop\<rparr>))"
        using \<open>Initialize lib (h1, ga) = Some st1\<close> Some(1) st1'
        by (simp add: Run_def index_at_def Let_def)
      have run2: "Run lib (h2, ga) =
          (if ?pop = [] then None
           else Some ((?r (?pop ! 0), bestFitness ga1), k2, ga1\<lparr>population := map ?r ?pop\<rparr>))"
        using \<open>Initialize lib (h2, ga) = Some st2\<close> Some(2) st2'
        by (simp add: Run_def index_at_def Let_def sorted2 del: Genes_reloc)
      have "map (genotype k2) (map ?r ?pop) = map (genotype k1) ?pop"
        using okp sim by (simp add: genotype_reloc del: Genes_reloc)
      moreover have "genotype k2 (?r (?pop ! 0)) = genotype k1 (?pop ! 0)" if "?pop \<noteq> []"
        using okp sim that by (simp add: genotype_reloc del: Genes_reloc)
      ultimately show ?thesis
        unfolding run1 run2 by (simp add: outcome_def del: Genes_reloc)
    qed
  qed
qed

lemma insert_sorted_map:
  assumes "\<And>a b. lt (f a) (f b) = lt a b"
  shows "insert_sorted lt (f x) (map f ys) = map f (insert_sorted lt x ys)"
  by (induction ys) (simp_all add: assms)

lemma insertion_sort_map:
  assumes "\<And>a b. lt (f a) (f b) = lt a b"
  shows "insertion_sort lt (map f xs) = map f (insertion_sort lt xs)"
  unfolding insertion_sort_def
  by (induction xs) (simp_all add: insert_sorted_map [where lt = lt and f = f, OF assms])

lemma counter_lib_natural: "SortSlice_natural counter_lib"
  unfolding SortSlice_natural_def
proof (intro allI impI)
  fix f :: "Individual \<Rightarrow> Individual" and xs
  assume "\<forall>x. Fitness (f x) = Fitness x"
  then have "by_fitness (f a) (f b) = by_fitness a b" for a b
    by (simp add: by_fitness_def)
  then show "SortSlice counter_lib by_fitness (map f xs) = map f (SortSlice counter_lib by_fitness xs)"
    by (simp add: counter_lib_def insertion_sort_map)
qed

text \<open>
  Claim C3. Two independent runs of freshly constructed engines whose configurations have
  the same fields (the same seed among them) and evaluators that agree on every input,
  started on any two stores, produce the same outcome: both panic, or they return
  individuals with identical genes and fitness, identical histories, populations that are
  identical gene for gene and fitness for fitness, and the same generator state. The
  engine draws only from the generator built from its seed and reads no array it has not
  allocated. The library's sort is taken to be a function that sorts and that sees the
  elements only through \<^verbatim>\<open>less\<close>.
\<close>

theorem Run_deterministic:
  assumes "SortSlice_sorts lib" and "SortSlice_natural lib"
    and "PopulationSize cfg1 = PopulationSize cfg2"
    and "MaxGenerations cfg1 = MaxGenerations cfg2"
    and "CrossoverProb cfg1 = CrossoverProb cfg2"
    and "MutationProb cfg1 = MutationProb cfg2"
    and "CrossoverType cfg1 = CrossoverType cfg2"
    and "ElitismCount cfg1 = ElitismCount cfg2"
    and "BitsPerGene cfg1 = BitsPerGene cfg2"
    and "Seed cfg1 = Seed cfg2"
    and "\<forall>genes. FitnessFunc cfg1 genes = FitnessFunc cfg2 genes"
  shows "outcome (Run lib (h1, NewGeneticAlgorithm lib cfg1))
       = outcome (Run lib (h2, NewGeneticAlgorithm lib cfg2))"
proof -
  have "FitnessFunc cfg1 = FitnessFunc cfg2"
    using assms(11) by (simp add: fun_eq_iff)
  then have "cfg1 = cfg2"
    using assms(3-10) by (intro Config.equality) simp_all
  then show ?thesis
    using Run_rel [OF assms(1,2), of h1 "NewGeneticAlgorithm lib cfg2" h2] by simp
qed

theorem Run_deterministic_witness:
  "SortSlice_sorts counter_lib \<and> SortSlice_natural counter_lib \<and>
   outcome (Run counter_lib ([], NewGeneticAlgorithm counter_lib small_config))
     = outcome (Run counter_lib (demo_store, NewGeneticAlgorithm counter_lib small_config)) \<and>
   outcome (Run counter_lib ([], NewGeneticAlgorithm counter_lib small_config))
     = Some (([0, 1], 1), [1, 1], [([0, 1], 1), ([0, 1], 1), ([0, 1], 1)], 31)"
proof -
  have "outcome (Run counter_lib ([], NewGeneticAlgorithm counter_lib small_config))
     = outcome (Run counter_lib (demo_store, NewGeneticAlgorithm counter_lib small_config))"
    using Run_deterministic [OF counter_lib_sorts counter_lib_natural,
        of small_config small_config "[]" demo_store]
    by simp
  moreover have "outcome (Run counter_lib ([], NewGeneticAlgorithm counter_lib small_config))
     = Some (([0, 1], 1), [1, 1], [([0, 1], 1), ([0, 1], 1), ([0, 1], 1)], 31)"
    by code_simp
  ultimately show ?thesis
    using counter_lib_sorts counter_lib_natural by simp
qed

end
